theory Spec2Isabelle
  imports Complex_Main
begin

section \<open>Calendar dates as Python's \<^verbatim>\<open>datetime.date\<close> has them\<close>

text \<open>
  \<^verbatim>\<open>data_profiling.py\<close> builds its holiday calendar with \<^verbatim>\<open>datetime.date\<close> and
  \<^verbatim>\<open>datetime.timedelta\<close>. The operations it uses are embedded here after the library's
  reference implementation (\<^verbatim>\<open>Lib/_pydatetime.py\<close>): the constructor with its range checks,
  \<^verbatim>\<open>toordinal\<close>, \<^verbatim>\<open>weekday\<close>, \<^verbatim>\<open>fromordinal\<close> and the
  subtraction of a \<^verbatim>\<open>timedelta\<close> of whole days. The C implementation that CPython
  runs computes the same, and its constructor first converts its arguments to C
  \<^verbatim>\<open>int\<close>, which is modelled too. Python integers are \<open>int\<close>; an exception is the
  \<open>Inl\<close> side of a sum.
\<close>

datatype py_error = ValueError | OverflowError

record date =
  year :: int
  month :: int
  day :: int

definition MINYEAR :: int where
  "MINYEAR = 1"

definition MAXYEAR :: int where
  "MAXYEAR = 9999"

definition MAXORDINAL :: int where
  "MAXORDINAL = 3652059"

definition DAYS_IN_MONTH :: "int list" where
  "DAYS_IN_MONTH = [-1, 31, 28, 31, 30, 31, 30, 31, 31, 30, 31, 30, 31]"

definition DAYS_BEFORE_MONTH :: "int list" where
  "DAYS_BEFORE_MONTH = [-1, 0, 31, 59, 90, 120, 151, 181, 212, 243, 273, 304, 334]"

definition is_leap :: "int \<Rightarrow> bool" where
  "is_leap y \<longleftrightarrow> y mod 4 = 0 \<and> (y mod 100 \<noteq> 0 \<or> y mod 400 = 0)"

definition days_before_year :: "int \<Rightarrow> int" where
  "days_before_year y = (let y1 = y - 1 in y1 * 365 + y1 div 4 - y1 div 100 + y1 div 400)"

definition days_in_month :: "int \<Rightarrow> int \<Rightarrow> int" where
  "days_in_month y m = (if m = 2 \<and> is_leap y then 29 else DAYS_IN_MONTH ! nat m)"

definition days_before_month :: "int \<Rightarrow> int \<Rightarrow> int" where
  "days_before_month y m =
     DAYS_BEFORE_MONTH ! nat m + (if m > 2 \<and> is_leap y then 1 else 0)"

definition ymd2ord :: "int \<Rightarrow> int \<Rightarrow> int \<Rightarrow> int" where
  "ymd2ord y m d = days_before_year y + days_before_month y m + d"

text \<open>
  \<^verbatim>\<open>date(y, m, d)\<close>: an argument that does not fit a C \<^verbatim>\<open>int\<close> (32 bits) raises
  \<^verbatim>\<open>OverflowError\<close> when the arguments are parsed; then come the three range checks of
  \<^verbatim>\<open>_check_date_fields\<close>, in the library's order, each raising \<^verbatim>\<open>ValueError\<close>.
\<close>

definition fits_c_int :: "int \<Rightarrow> bool" where
  "fits_c_int k \<longleftrightarrow> - 2147483648 \<le> k \<and> k \<le> 2147483647"

definition date_new :: "int \<Rightarrow> int \<Rightarrow> int \<Rightarrow> py_error + date" where
  "date_new y m d =
     (if \<not> (fits_c_int y \<and> fits_c_int m \<and> fits_c_int d) then Inl OverflowError
      else if \<not> (MINYEAR \<le> y \<and> y \<le> MAXYEAR) then Inl ValueError
      else if \<not> (1 \<le> m \<and> m \<le> 12) then Inl ValueError
      else if \<not> (1 \<le> d \<and> d \<le> days_in_month y m) then Inl ValueError
      else Inr \<lparr>year = y, month = m, day = d\<rparr>)"

definition toordinal :: "date \<Rightarrow> int" where
  "toordinal dt = ymd2ord (year dt) (month dt) (day dt)"

text \<open>\<^verbatim>\<open>d.weekday()\<close>: Monday is 0, Sunday is 6.\<close>

definition weekday :: "date \<Rightarrow> int" where
  "weekday dt = (toordinal dt + 6) mod 7"

text \<open>
  \<^verbatim>\<open>_ord2ymd(n)\<close>: the ordinal is split into 400-, 100-, 4- and 1-year cycles; the
  month is estimated by a shift and corrected when the estimate is one too large.
\<close>

definition ord2ymd :: "int \<Rightarrow> int \<times> int \<times> int" where
  "ord2ymd n0 =
     (let n = n0 - 1;
          n400 = n div 146097; n = n mod 146097;
          n100 = n div 36524; n = n mod 36524;
          n4 = n div 1461; n = n mod 1461;
          n1 = n div 365; n = n mod 365;
          y = n400 * 400 + 1 + n100 * 100 + n4 * 4 + n1
      in if n1 = 4 \<or> n100 = 4 then (y - 1, 12, 31)
         else
           let leapyear = (n1 = 3 \<and> (n4 \<noteq> 24 \<or> n100 = 3));
               m = (n + 50) div 32;
               preceding = DAYS_BEFORE_MONTH ! nat m + (if m > 2 \<and> leapyear then 1 else 0)
           in if preceding > n
              then let m' = m - 1;
                       preceding' = preceding
                          - (DAYS_IN_MONTH ! nat m' + (if m' = 2 \<and> leapyear then 1 else 0))
                   in (y, m', n - preceding' + 1)
              else (y, m, n - preceding + 1))"

text \<open>\<^verbatim>\<open>date.fromordinal(n)\<close> passes the triple through the checking constructor.\<close>

definition fromordinal :: "int \<Rightarrow> py_error + date" where
  "fromordinal n = (case ord2ymd n of (y, m, d) \<Rightarrow> date_new y m d)"

text \<open>
  \<^verbatim>\<open>d + timedelta(days=k)\<close> and \<^verbatim>\<open>d - timedelta(days=k)\<close>: the ordinal is moved and
  converted back; a result outside \<^verbatim>\<open>1 .. _MAXORDINAL\<close> raises \<^verbatim>\<open>OverflowError\<close>.
\<close>

definition date_add_days :: "date \<Rightarrow> int \<Rightarrow> py_error + date" where
  "date_add_days dt k =
     (let ordv = toordinal dt + k
      in if 0 < ordv \<and> ordv \<le> MAXORDINAL then fromordinal ordv else Inl OverflowError)"

definition date_sub_days :: "date \<Rightarrow> int \<Rightarrow> py_error + date" where
  "date_sub_days dt k = date_add_days dt (- k)"

text \<open>The class invariant of a \<^verbatim>\<open>date\<close> object: what the constructor has checked.\<close>

definition valid_date :: "date \<Rightarrow> bool" where
  "valid_date dt \<longleftrightarrow>
     MINYEAR \<le> year dt \<and> year dt \<le> MAXYEAR \<and> 1 \<le> month dt \<and> month dt \<le> 12 \<and>
     1 \<le> day dt \<and> day dt \<le> days_in_month (year dt) (month dt)"


subsection \<open>Ordinals and dates correspond\<close>

text \<open>
  The month-and-day part of \<open>ord2ymd\<close>, set apart so that it can be reasoned about
  on its own: \<open>n\<close> is the zero-based day of the year.
\<close>

definition month_day :: "bool \<Rightarrow> int \<Rightarrow> int \<times> int" where
  "month_day leapyear n =
     (let m = (n + 50) div 32;
          preceding = DAYS_BEFORE_MONTH ! nat m + (if m > 2 \<and> leapyear then 1 else 0)
      in if preceding > n
         then let m' = m - 1;
                  preceding' = preceding
                     - (DAYS_IN_MONTH ! nat m' + (if m' = 2 \<and> leapyear then 1 else 0))
              in (m', n - preceding' + 1)
         else (m, n - preceding + 1))"

lemma days_before_year_cycles:
  assumes "0 \<le> b" "b \<le> 3" "0 \<le> c" "c \<le> 24" "0 \<le> e" "e \<le> 3"
  shows "days_before_year (400 * a + 100 * b + 4 * c + e + 1)
         = 146097 * a + 36524 * b + 1461 * c + 365 * e"
proof -
  let ?y = "400 * a + 100 * b + 4 * c + e"
  have d4: "?y div 4 = 100 * a + 25 * b + c"
    by (rule int_div_pos_eq [where r = e]) (use assms in auto)
  have d100: "?y div 100 = 4 * a + b"
    by (rule int_div_pos_eq [where r = "4 * c + e"]) (use assms in auto)
  have d400: "?y div 400 = a"
    by (rule int_div_pos_eq [where r = "100 * b + 4 * c + e"]) (use assms in auto)
  show ?thesis
    unfolding days_before_year_def Let_def
    using d4 d100 d400 by simp
qed

lemma is_leap_cycles:
  assumes "0 \<le> b" "b \<le> 3" "0 \<le> c" "c \<le> 24" "0 \<le> e" "e \<le> 3"
  shows "is_leap (400 * a + 100 * b + 4 * c + e + 1) \<longleftrightarrow> e = 3 \<and> (c \<noteq> 24 \<or> b = 3)"
proof -
  let ?y = "400 * a + 100 * b + 4 * c + e + 1"
  have m4: "?y mod 4 = (if e = 3 then 0 else e + 1)"
  proof (cases "e = 3")
    case True
    have "?y mod 4 = 0"
      by (rule int_mod_pos_eq [where q = "100 * a + 25 * b + c + 1"]) (use True in auto)
    with True show ?thesis by simp
  next
    case False
    have "?y mod 4 = e + 1"
      by (rule int_mod_pos_eq [where q = "100 * a + 25 * b + c"]) (use False assms in auto)
    with False show ?thesis by simp
  qed
  have m100: "?y mod 100 = (if c = 24 \<and> e = 3 then 0 else 4 * c + e + 1)"
  proof (cases "c = 24 \<and> e = 3")
    case True
    have "?y mod 100 = 0"
      by (rule int_mod_pos_eq [where q = "4 * a + b + 1"]) (use True in auto)
    with True show ?thesis by simp
  next
    case False
    have "?y mod 100 = 4 * c + e + 1"
      by (rule int_mod_pos_eq [where q = "4 * a + b"]) (use False assms in auto)
    with False show ?thesis by simp
  qed
  have m400: "?y mod 400 = (if b = 3 \<and> c = 24 \<and> e = 3 then 0 else 100 * b + 4 * c + e + 1)"
  proof (cases "b = 3 \<and> c = 24 \<and> e = 3")
    case True
    have "?y mod 400 = 0"
      by (rule int_mod_pos_eq [where q = "a + 1"]) (use True in auto)
    with True show ?thesis by simp
  next
    case False
    have "?y mod 400 = 100 * b + 4 * c + e + 1"
      by (rule int_mod_pos_eq [where q = a]) (use False assms in auto)
    with False show ?thesis by simp
  qed
  show ?thesis
    unfolding is_leap_def m4 m100 m400 using assms by auto
qed

lemma month_day_correct:
  assumes "0 \<le> n" "n < (if lp then 366 else 365)" "month_day lp n = (m, d)"
  shows "1 \<le> m \<and> m \<le> 12 \<and> 1 \<le> d \<and>
         d \<le> (if m = 2 \<and> lp then 29 else DAYS_IN_MONTH ! nat m) \<and>
         DAYS_BEFORE_MONTH ! nat m + (if m > 2 \<and> lp then 1 else 0) + d = n + 1"
proof -
  define k where "k = (n + 50) div 32"
  define r where "r = (n + 50) mod 32"
  have n: "n = 32 * k + r - 50" and r: "0 \<le> r" "r < 32"
    by (simp_all add: k_def r_def)
  have "1 \<le> k" "k \<le> 12"
    using assms(1,2) n r by (auto split: if_splits)
  then have ks: "k = 1 \<or> k = 2 \<or> k = 3 \<or> k = 4 \<or> k = 5 \<or> k = 6 \<or> k = 7
      \<or> k = 8 \<or> k = 9 \<or> k = 10 \<or> k = 11 \<or> k = 12"
    by presburger
  show ?thesis
    using ks assms r n
    unfolding month_day_def Let_def k_def [symmetric]
    by (elim disjE) (auto simp: DAYS_IN_MONTH_def DAYS_BEFORE_MONTH_def split: if_splits)
qed

text \<open>
  Every ordinal in \<open>1 .. MAXORDINAL\<close> is converted to a triple that passes the
  constructor's checks and whose ordinal it is.
\<close>

lemma ord2ymd_correct:
  assumes n0: "1 \<le> n0" "n0 \<le> MAXORDINAL" and res: "ord2ymd n0 = (y, m, d)"
  shows "MINYEAR \<le> y \<and> y \<le> MAXYEAR \<and> 1 \<le> m \<and> m \<le> 12 \<and> 1 \<le> d \<and>
         d \<le> days_in_month y m \<and> ymd2ord y m d = n0"
proof -
  define n where "n = n0 - 1"
  define a where "a = n div 146097"
  define r where "r = n mod 146097"
  define b where "b = r div 36524"
  define r2 where "r2 = r mod 36524"
  define c where "c = r2 div 1461"
  define r3 where "r3 = r2 mod 1461"
  define e where "e = r3 div 365"
  define r4 where "r4 = r3 mod 365"
  have n: "n = 146097 * a + r" "0 \<le> r" "r < 146097"
    by (simp_all add: a_def r_def)
  have r: "r = 36524 * b + r2" "0 \<le> r2" "r2 < 36524"
    by (simp_all add: b_def r2_def)
  have r2: "r2 = 1461 * c + r3" "0 \<le> r3" "r3 < 1461"
    by (simp_all add: c_def r3_def)
  have r3: "r3 = 365 * e + r4" "0 \<le> r4" "r4 < 365"
    by (simp_all add: e_def r4_def)
  have nn: "0 \<le> n" "n \<le> 3652058"
    using n0 by (simp_all add: n_def MAXORDINAL_def)
  have a: "0 \<le> a" "a \<le> 24" using n nn by linarith+
  have b: "0 \<le> b" "b \<le> 4" using r n by linarith+
  have c: "0 \<le> c" "c \<le> 24" using r r2 by linarith+
  have e: "0 \<le> e" "e \<le> 4" using r2 r3 by linarith+
  define lp where "lp \<longleftrightarrow> e = 3 \<and> (c \<noteq> 24 \<or> b = 3)"
  have unf: "ord2ymd n0 =
      (if e = 4 \<or> b = 4 then (400 * a + 100 * b + 4 * c + e, 12, 31)
       else case month_day lp r4 of (m', d') \<Rightarrow> (400 * a + 100 * b + 4 * c + e + 1, m', d'))"
    unfolding ord2ymd_def month_day_def Let_def
      n_def [symmetric] a_def [symmetric] r_def [symmetric] b_def [symmetric]
      r2_def [symmetric] c_def [symmetric] r3_def [symmetric] e_def [symmetric]
      r4_def [symmetric] lp_def [symmetric]
    by (simp add: algebra_simps)
  consider (century) "b = 4" | (quad) "b \<le> 3" "e = 4" | (plain) "b \<le> 3" "e \<le> 3"
    using b e by linarith
  then show ?thesis
  proof cases
    case century
    have z: "r2 = 0" "c = 0" "r3 = 0" "e = 0" "r4 = 0"
      using century r n r2 r3 c e by linarith+
    have a23: "a \<le> 23" using n nn r century z by linarith
    have ymd: "y = 400 * a + 400" "m = 12" "d = 31"
      using res unf century z by simp_all
    have dby: "days_before_year y = 146097 * a + 145731"
      using days_before_year_cycles [of 3 24 3 a] by (simp add: ymd algebra_simps)
    have lpy: "is_leap y"
      using is_leap_cycles [of 3 24 3 a] by (simp add: ymd algebra_simps)
    have "n = 146097 * a + 146096" using n r century z by simp
    then show ?thesis
      using a a23 dby lpy
      by (simp add: ymd MINYEAR_def MAXYEAR_def days_in_month_def ymd2ord_def
          days_before_month_def DAYS_IN_MONTH_def DAYS_BEFORE_MONTH_def n_def)
  next
    case quad
    have z: "r4 = 0" using quad r3 r2 by linarith
    have c23: "c \<le> 23" using quad r2 r3 r z by linarith
    have ymd: "y = 400 * a + 100 * b + 4 * c + 4" "m = 12" "d = 31"
      using res unf quad by simp_all
    have dby: "days_before_year y = 146097 * a + 36524 * b + 1461 * c + 1095"
      using days_before_year_cycles [of b c 3 a] b c quad by (simp add: ymd algebra_simps)
    have lpy: "is_leap y"
      using is_leap_cycles [of b c 3 a] b c c23 quad by (simp add: ymd algebra_simps)
    have yhi: "y \<le> 9999"
    proof (cases "a = 24")
      case True
      then have "r \<le> 145730" using n nn by linarith
      then have "36524 * b + 1461 * c + 1460 \<le> 145730"
        using r r2 r3 quad z by linarith
      then have "100 * b + 4 * c + 4 \<le> 399" using b c c23 quad by linarith
      then show ?thesis using True by (simp add: ymd)
    next
      case False
      then have "a \<le> 23" using a by linarith
      then show ?thesis using quad c23 by (simp add: ymd)
    qed
    have "n = 146097 * a + 36524 * b + 1461 * c + 1460" using n r r2 r3 quad z by simp
    then show ?thesis
      using a b c dby lpy yhi
      by (simp add: ymd MINYEAR_def MAXYEAR_def days_in_month_def ymd2ord_def
          days_before_month_def DAYS_IN_MONTH_def DAYS_BEFORE_MONTH_def n_def)
  next
    case plain
    obtain m' d' where md: "month_day lp r4 = (m', d')" by (cases "month_day lp r4")
    have ymd: "y = 400 * a + 100 * b + 4 * c + e + 1" "m = m'" "d = d'"
      using res unf plain md by simp_all
    have mdc: "1 \<le> m \<and> m \<le> 12 \<and> 1 \<le> d \<and>
        d \<le> (if m = 2 \<and> lp then 29 else DAYS_IN_MONTH ! nat m) \<and>
        DAYS_BEFORE_MONTH ! nat m + (if m > 2 \<and> lp then 1 else 0) + d = r4 + 1"
    proof -
      have "r4 < (if lp then 366 else 365)" using r3 by simp
      from month_day_correct [OF r3(2) this md] show ?thesis by (simp only: ymd)
    qed
    have dby: "days_before_year y = 146097 * a + 36524 * b + 1461 * c + 365 * e"
      using days_before_year_cycles [of b c e a] b c e plain by (simp add: ymd algebra_simps)
    have lpy: "is_leap y \<longleftrightarrow> lp"
      using is_leap_cycles [of b c e a] b c e plain by (simp add: ymd lp_def algebra_simps)
    have yhi: "y \<le> 9999"
    proof (cases "a = 24")
      case True
      then have "r \<le> 145730" using n nn by linarith
      then have "36524 * b + 1461 * c + 365 * e \<le> 145730"
        using r r2 r3 by linarith
      then have "\<not> (b = 3 \<and> c = 24 \<and> e = 3)" by auto
      then have "100 * b + 4 * c + e \<le> 398" using b c e plain by auto
      then show ?thesis using True by (simp add: ymd)
    next
      case False
      then have "a \<le> 23" using a by linarith
      then show ?thesis using plain c by (simp add: ymd)
    qed
    have ylo: "1 \<le> y" using a b c e by (simp add: ymd)
    have "n = 146097 * a + 36524 * b + 1461 * c + 365 * e + r4" using n r r2 r3 by simp
    then show ?thesis
      using mdc dby lpy yhi ylo
      by (simp add: MINYEAR_def MAXYEAR_def days_in_month_def ymd2ord_def
          days_before_month_def n_def)
  qed
qed

text \<open>Consecutive years, and the leap-year rule, in terms of the ordinal.\<close>

lemma div_pred:
  fixes y k :: int
  assumes "0 < k"
  shows "y div k = (y - 1) div k + (if y mod k = 0 then 1 else 0)"
proof (cases "y mod k = 0")
  case True
  have "(y - 1) div k = y div k - 1"
  proof (rule int_div_pos_eq [where r = "k - 1"])
    show "y - 1 = k * (y div k - 1) + (k - 1)"
      using True mult_div_mod_eq [of k y] by (simp add: algebra_simps)
  qed (use assms in auto)
  with True show ?thesis by simp
next
  case False
  have "(y - 1) div k = y div k"
  proof (rule int_div_pos_eq [where r = "y mod k - 1"])
    show "y - 1 = k * (y div k) + (y mod k - 1)"
      using mult_div_mod_eq [of k y] by (simp add: algebra_simps)
    show "0 \<le> y mod k - 1"
      using False assms pos_mod_sign [of k y] by linarith
    show "y mod k - 1 < k"
      using assms pos_mod_bound [of k y] by linarith
  qed
  with False show ?thesis by simp
qed

lemma mod_chain:
  fixes y :: int
  shows "y mod 400 = 0 \<Longrightarrow> y mod 100 = 0" "y mod 100 = 0 \<Longrightarrow> y mod 4 = 0"
proof -
  have d: "(100::int) dvd 400" "(4::int) dvd 100" by simp_all
  show "y mod 100 = 0" if "y mod 400 = 0"
    using dvd_trans [OF d(1), of y] that by (simp only: mod_eq_0_iff_dvd)
  show "y mod 4 = 0" if "y mod 100 = 0"
    using dvd_trans [OF d(2), of y] that by (simp only: mod_eq_0_iff_dvd)
qed

lemma days_before_year_Suc:
  "days_before_year (y + 1) = days_before_year y + 365 + (if is_leap y then 1 else 0)"
proof -
  define q4 q100 q400 where "q4 = (y - 1) div 4" and "q100 = (y - 1) div 100"
    and "q400 = (y - 1) div 400"
  define i4 i100 i400 :: int where "i4 = (if y mod 4 = 0 then 1 else 0)"
    and "i100 = (if y mod 100 = 0 then 1 else 0)"
    and "i400 = (if y mod 400 = 0 then 1 else 0)"
  have e: "y div 4 = q4 + i4" "y div 100 = q100 + i100" "y div 400 = q400 + i400"
    unfolding q4_def q100_def q400_def i4_def i100_def i400_def
    by (rule div_pred, simp)+
  have lp: "(if is_leap y then 1 else 0) = i4 - i100 + i400"
  proof (cases "y mod 400 = 0")
    case True
    with mod_chain [of y] show ?thesis
      by (simp add: is_leap_def i4_def i100_def i400_def)
  next
    case n400: False
    show ?thesis
    proof (cases "y mod 100 = 0")
      case True
      with n400 mod_chain(2) [of y] show ?thesis
        by (simp add: is_leap_def i4_def i100_def i400_def)
    next
      case False
      with n400 show ?thesis
        by (simp add: is_leap_def i4_def i100_def i400_def)
    qed
  qed
  have "days_before_year (y + 1) = y * 365 + y div 4 - y div 100 + y div 400"
    by (simp add: days_before_year_def)
  then have l: "days_before_year (y + 1) = y * 365 + (q4 + i4) - (q100 + i100) + (q400 + i400)"
    by (simp only: e)
  have r: "days_before_year y = (y - 1) * 365 + q4 - q100 + q400"
    by (simp add: days_before_year_def Let_def q4_def q100_def q400_def)
  show ?thesis
    unfolding lp l r by (simp add: algebra_simps)
qed

lemma days_before_year_mono: "y \<le> y' \<Longrightarrow> days_before_year y \<le> days_before_year y'"
proof (induction y' rule: int_ge_induct)
  case base
  show ?case by simp
next
  case (step i)
  then show ?case using days_before_year_Suc [of i] by (simp split: if_splits)
qed

lemma month_cases:
  "1 \<le> m \<Longrightarrow> m \<le> 12 \<Longrightarrow>
   m = 1 \<or> m = 2 \<or> m = 3 \<or> m = 4 \<or> m = 5 \<or> m = 6 \<or> m = 7 \<or> m = 8
   \<or> m = 9 \<or> m = 10 \<or> m = 11 \<or> (m::int) = 12"
  by presburger

lemma days_in_month_bounds:
  "1 \<le> m \<Longrightarrow> m \<le> 12 \<Longrightarrow> 28 \<le> days_in_month y m \<and> days_in_month y m \<le> 31"
  using month_cases [of m]
  by (auto simp: days_in_month_def DAYS_IN_MONTH_def)

lemma days_before_month_next:
  "1 \<le> m \<Longrightarrow> m \<le> 11 \<Longrightarrow>
   days_before_month y (m + 1) = days_before_month y m + days_in_month y m"
  using month_cases [of m]
  by (auto simp: days_in_month_def days_before_month_def DAYS_IN_MONTH_def DAYS_BEFORE_MONTH_def)

lemma days_before_month_bounds:
  "1 \<le> m \<Longrightarrow> m \<le> 12 \<Longrightarrow>
   0 \<le> days_before_month y m \<and>
   days_before_month y m + days_in_month y m \<le> 365 + (if is_leap y then 1 else 0)"
  using month_cases [of m]
  by (auto simp: days_in_month_def days_before_month_def DAYS_IN_MONTH_def DAYS_BEFORE_MONTH_def)

lemma days_before_month_mono:
  assumes "1 \<le> m" "m < m'" "m' \<le> 12"
  shows "days_before_month y m + days_in_month y m \<le> days_before_month y m'"
  using assms(2,3)
proof (induction m' rule: int_gr_induct)
  case base
  then show ?case using assms(1) days_before_month_next [of m y] by simp
next
  case (step i)
  then show ?case
    using assms(1) days_before_month_next [of i y] days_in_month_bounds [of i y] by simp
qed

text \<open>The ordinal of a valid date lies within its year and its month.\<close>

lemma ymd2ord_year_bounds:
  assumes "1 \<le> m" "m \<le> 12" "1 \<le> d" "d \<le> days_in_month y m"
  shows "days_before_year y < ymd2ord y m d" "ymd2ord y m d \<le> days_before_year (y + 1)"
  using assms days_before_month_bounds [of m y] days_before_year_Suc [of y]
  by (simp_all add: ymd2ord_def)

lemma ymd2ord_inj:
  assumes v: "1 \<le> m" "m \<le> 12" "1 \<le> d" "d \<le> days_in_month y m"
    and v': "1 \<le> m'" "m' \<le> 12" "1 \<le> d'" "d' \<le> days_in_month y' m'"
    and eq: "ymd2ord y m d = ymd2ord y' m' d'"
  shows "y = y' \<and> m = m' \<and> d = d'"
proof -
  have yy: "y = y'"
  proof (rule ccontr)
    assume "y \<noteq> y'"
    then consider "y + 1 \<le> y'" | "y' + 1 \<le> y" by linarith
    then show False
    proof cases
      case 1
      from days_before_year_mono [OF 1] ymd2ord_year_bounds [OF v] ymd2ord_year_bounds [OF v'] eq
      show False by linarith
    next
      case 2
      from days_before_year_mono [OF 2] ymd2ord_year_bounds [OF v] ymd2ord_year_bounds [OF v'] eq
      show False by linarith
    qed
  qed
  have mm: "m = m'"
  proof (rule ccontr)
    assume "m \<noteq> m'"
    then consider "m < m'" | "m' < m" by linarith
    then show False
    proof cases
      case 1
      from days_before_month_mono [OF v(1) 1 v'(2), of y] v v' eq yy
      show False by (simp add: ymd2ord_def)
    next
      case 2
      from days_before_month_mono [OF v'(1) 2 v(2), of y] v v' eq yy
      show False by (simp add: ymd2ord_def)
    qed
  qed
  from yy mm eq show ?thesis by (simp add: ymd2ord_def)
qed

lemma days_before_year_1: "days_before_year 1 = 0"
  by (simp add: days_before_year_def)

lemma days_before_year_10000: "days_before_year 10000 = 3652059"
  by (simp add: days_before_year_def)

lemma valid_date_ordinal:
  assumes "valid_date dt"
  shows "0 < toordinal dt" "toordinal dt \<le> MAXORDINAL"
proof -
  from assms have v: "1 \<le> month dt" "month dt \<le> 12" "1 \<le> day dt"
    "day dt \<le> days_in_month (year dt) (month dt)" and y: "1 \<le> year dt" "year dt + 1 \<le> 10000"
    by (simp_all add: valid_date_def MINYEAR_def MAXYEAR_def)
  from days_before_year_mono [OF y(1)] days_before_year_mono [OF y(2)]
    ymd2ord_year_bounds [OF v]
  show "0 < toordinal dt" "toordinal dt \<le> MAXORDINAL"
    by (simp_all add: toordinal_def days_before_year_1 days_before_year_10000 MAXORDINAL_def)
qed

lemma date_new_ok:
  assumes "MINYEAR \<le> y" "y \<le> MAXYEAR" "1 \<le> m" "m \<le> 12" "1 \<le> d" "d \<le> days_in_month y m"
  shows "date_new y m d = Inr \<lparr>year = y, month = m, day = d\<rparr>"
proof -
  have "d \<le> 31" using assms(6) days_in_month_bounds [OF assms(3,4), of y] by simp
  then have "fits_c_int y" "fits_c_int m" "fits_c_int d"
    using assms by (simp_all add: fits_c_int_def MINYEAR_def MAXYEAR_def)
  then show ?thesis using assms by (simp add: date_new_def)
qed

lemma date_new_valid:
  "date_new y m d = Inr dt \<longleftrightarrow> dt = \<lparr>year = y, month = m, day = d\<rparr> \<and> valid_date dt"
proof
  assume "date_new y m d = Inr dt"
  then show "dt = \<lparr>year = y, month = m, day = d\<rparr> \<and> valid_date dt"
    by (auto simp: date_new_def valid_date_def split: if_splits)
next
  assume "dt = \<lparr>year = y, month = m, day = d\<rparr> \<and> valid_date dt"
  then have e: "dt = \<lparr>year = y, month = m, day = d\<rparr>" and v: "valid_date dt"
    by blast+
  from v have "MINYEAR \<le> y" "y \<le> MAXYEAR" "1 \<le> m" "m \<le> 12" "1 \<le> d"
    "d \<le> days_in_month y m"
    unfolding e valid_date_def by simp_all
  then show "date_new y m d = Inr dt"
    unfolding e by (rule date_new_ok)
qed

lemma fromordinal_toordinal:
  assumes "valid_date dt"
  shows "fromordinal (toordinal dt) = Inr dt"
proof -
  obtain y m d where o: "ord2ymd (toordinal dt) = (y, m, d)"
    by (cases "ord2ymd (toordinal dt)")
  from valid_date_ordinal [OF assms] have "1 \<le> toordinal dt" "toordinal dt \<le> MAXORDINAL"
    by simp_all
  from ord2ymd_correct [OF this o]
  have c: "MINYEAR \<le> y" "y \<le> MAXYEAR" "1 \<le> m" "m \<le> 12" "1 \<le> d" "d \<le> days_in_month y m"
    "ymd2ord y m d = ymd2ord (year dt) (month dt) (day dt)"
    by (simp_all add: toordinal_def)
  from assms have v: "1 \<le> month dt" "month dt \<le> 12" "1 \<le> day dt"
    "day dt \<le> days_in_month (year dt) (month dt)"
    by (simp_all add: valid_date_def)
  from ymd2ord_inj [OF c(3-6) v c(7)] have "y = year dt" "m = month dt" "d = day dt"
    by simp_all
  with assms show ?thesis
    by (simp add: fromordinal_def o date_new_valid)
qed

lemma fromordinal_result:
  assumes "0 < n" "n \<le> MAXORDINAL"
  shows "\<exists>dt. fromordinal n = Inr dt \<and> valid_date dt \<and> toordinal dt = n"
proof -
  obtain y m d where o: "ord2ymd n = (y, m, d)" by (cases "ord2ymd n")
  from assms have "1 \<le> n" by simp
  from ord2ymd_correct [OF this assms(2) o] show ?thesis
    by (simp add: fromordinal_def o date_new_ok valid_date_def toordinal_def)
qed

subsection \<open>The holiday functions of \<^verbatim>\<open>data_profiling.py\<close>\<close>

text \<open>
  \<^verbatim>\<open>nth_weekday_of_month(y, m, weekday, n)\<close>. Its first loop
  \<^verbatim>\<open>while d.weekday() != weekday: d = date(d.year, d.month, d.day + 1)\<close>
  rebuilds the date with the day field incremented, so a day past the end of the month
  makes the constructor raise; the loop always ends, since the day field grows.
\<close>

function seek_weekday_forward :: "date \<Rightarrow> int \<Rightarrow> py_error + date" where
  "seek_weekday_forward d wd =
     (if weekday d \<noteq> wd
      then (case date_new (year d) (month d) (day d + 1) of
              Inl e \<Rightarrow> Inl e
            | Inr d' \<Rightarrow> seek_weekday_forward d' wd)
      else Inr d)"
  by pat_completeness auto
termination
proof (relation "measure (\<lambda>(d, wd). nat (32 - day d))")
  show "wf (measure (\<lambda>(d, wd). nat (32 - day d)))" by simp
next
  fix d :: date and wd :: int and d' :: date
  assume "date_new (year d) (month d) (day d + 1) = Inr d'"
  then have "day d' = day d + 1" "valid_date d'"
    by (auto simp: date_new_valid)
  moreover from this have "day d' \<le> 31"
    using days_in_month_bounds [of "month d'" "year d'"] by (simp add: valid_date_def)
  ultimately show "((d', wd), (d, wd)) \<in> measure (\<lambda>(d, wd). nat (32 - day d))"
    by simp
qed

declare seek_weekday_forward.simps [simp del]

text \<open>
  The second loop, \<^verbatim>\<open>for _ in range(n - 1): d = date(d.year, d.month, d.day + 7)\<close>,
  runs \<open>nat (n - 1)\<close> times (not at all when \<open>n \<le> 1\<close>).
\<close>

fun add_weeks :: "nat \<Rightarrow> date \<Rightarrow> py_error + date" where
  "add_weeks 0 d = Inr d"
| "add_weeks (Suc k) d =
     (case date_new (year d) (month d) (day d + 7) of
        Inl e \<Rightarrow> Inl e
      | Inr d' \<Rightarrow> add_weeks k d')"

definition nth_weekday_of_month :: "int \<Rightarrow> int \<Rightarrow> int \<Rightarrow> int \<Rightarrow> py_error + date" where
  "nth_weekday_of_month y m wd n =
     (case date_new y m 1 of
        Inl e \<Rightarrow> Inl e
      | Inr d \<Rightarrow>
          (case seek_weekday_forward d wd of
             Inl e \<Rightarrow> Inl e
           | Inr d1 \<Rightarrow> add_weeks (nat (n - 1)) d1))"

text \<open>
  \<^verbatim>\<open>last_weekday_of_month(y, m, weekday)\<close>. The loop
  \<^verbatim>\<open>while last.weekday() != weekday: last = last - timedelta(days=1)\<close> steps the
  ordinal down, and ends at the latest when the ordinal would leave the range of dates.
\<close>

lemma date_sub_days_ordinal:
  assumes "date_sub_days dt 1 = Inr dt'"
  shows "toordinal dt' = toordinal dt - 1" "0 < toordinal dt'"
proof -
  from assms have r: "0 < toordinal dt - 1" "toordinal dt - 1 \<le> MAXORDINAL"
    and f: "fromordinal (toordinal dt - 1) = Inr dt'"
    by (simp_all add: date_sub_days_def date_add_days_def Let_def split: if_splits)
  from fromordinal_result [OF r] f show "toordinal dt' = toordinal dt - 1" by simp
  with r show "0 < toordinal dt'" by simp
qed

function seek_weekday_backward :: "date \<Rightarrow> int \<Rightarrow> py_error + date" where
  "seek_weekday_backward cur wd =
     (if weekday cur \<noteq> wd
      then (case date_sub_days cur 1 of
              Inl e \<Rightarrow> Inl e
            | Inr cur' \<Rightarrow> seek_weekday_backward cur' wd)
      else Inr cur)"
  by pat_completeness auto
termination
proof (relation "measure (\<lambda>(cur, wd). nat (toordinal cur))")
  show "wf (measure (\<lambda>(cur, wd). nat (toordinal cur)))" by simp
next
  fix cur :: date and wd :: int and cur' :: date
  assume "date_sub_days cur 1 = Inr cur'"
  from date_sub_days_ordinal [OF this]
  show "((cur', wd), (cur, wd)) \<in> measure (\<lambda>(cur, wd). nat (toordinal cur))"
    by simp
qed

declare seek_weekday_backward.simps [simp del]

definition last_weekday_of_month :: "int \<Rightarrow> int \<Rightarrow> int \<Rightarrow> py_error + date" where
  "last_weekday_of_month y m wd =
     (case (if m = 12 then date_new y 12 31
            else (case date_new y (m + 1) 1 of
                    Inl e \<Rightarrow> Inl e
                  | Inr first_next \<Rightarrow> date_sub_days first_next 1)) of
        Inl e \<Rightarrow> Inl e
      | Inr lastd \<Rightarrow> seek_weekday_backward lastd wd)"

text \<open>
  \<^verbatim>\<open>build_us_holidays_for_year(y)\<close>: ten \<^verbatim>\<open>hol.add(...)\<close> on a set that starts
  empty. \<open>holiday_rules\<close> lists the ten date expressions in the source's order,
  \<open>hol_add\<close> is one \<^verbatim>\<open>hol.add\<close>; the first expression that raises ends the
  function with that exception.
\<close>

definition holiday_rules :: "int \<Rightarrow> (py_error + date) list" where
  "holiday_rules y =
     [date_new y 1 1,
      date_new y 7 4,
      date_new y 11 11,
      date_new y 12 25,
      nth_weekday_of_month y 1 0 3,
      nth_weekday_of_month y 2 0 3,
      last_weekday_of_month y 5 0,
      nth_weekday_of_month y 9 0 1,
      nth_weekday_of_month y 10 0 2,
      nth_weekday_of_month y 11 3 4]"

definition hol_add :: "py_error + date set \<Rightarrow> py_error + date \<Rightarrow> py_error + date set" where
  "hol_add hol r =
     (case hol of
        Inl e \<Rightarrow> Inl e
      | Inr s \<Rightarrow> (case r of Inl e \<Rightarrow> Inl e | Inr d \<Rightarrow> Inr (insert d s)))"

definition build_us_holidays_for_year :: "int \<Rightarrow> py_error + date set" where
  "build_us_holidays_for_year y = foldl hol_add (Inr {}) (holiday_rules y)"

lemma weekday_shift:
  "weekday \<lparr>year = y, month = m, day = d + k\<rparr>
   = (weekday \<lparr>year = y, month = m, day = d\<rparr> + k) mod 7"
proof -
  have "(days_before_year y + days_before_month y m + (d + k) + 6) mod 7
      = ((days_before_year y + days_before_month y m + d + 6) + k) mod 7"
    by (simp add: algebra_simps)
  then show ?thesis
    by (simp add: weekday_def toordinal_def ymd2ord_def mod_add_left_eq)
qed

lemma weekday_range: "0 \<le> weekday dt \<and> weekday dt \<le> 6"
  by (simp add: weekday_def) 

lemma seek_weekday_forward_finds:
  assumes "MINYEAR \<le> y" "y \<le> MAXYEAR" "1 \<le> m" "m \<le> 12"
    and "1 \<le> j" "j + int k \<le> days_in_month y m"
    and "\<forall>i<k. weekday \<lparr>year = y, month = m, day = j + int i\<rparr> \<noteq> wd"
    and "weekday \<lparr>year = y, month = m, day = j + int k\<rparr> = wd"
  shows "seek_weekday_forward \<lparr>year = y, month = m, day = j\<rparr> wd
         = Inr \<lparr>year = y, month = m, day = j + int k\<rparr>"
  using assms(5-8)
proof (induction k arbitrary: j)
  case 0
  then show ?case by (simp add: seek_weekday_forward.simps)
next
  case (Suc k)
  from Suc.prems(3) have ne: "weekday \<lparr>year = y, month = m, day = j\<rparr> \<noteq> wd"
    by (auto dest: spec [of _ 0])
  have dn: "date_new y m (j + 1) = Inr \<lparr>year = y, month = m, day = j + 1\<rparr>"
    using assms(1-4) Suc.prems(1,2) by (simp add: date_new_ok)
  have later: "\<forall>i<k. weekday \<lparr>year = y, month = m, day = j + 1 + int i\<rparr> \<noteq> wd"
  proof (intro allI impI)
    fix i assume "i < k"
    then have "Suc i < Suc k" by simp
    with Suc.prems(3) have "weekday \<lparr>year = y, month = m, day = j + int (Suc i)\<rparr> \<noteq> wd"
      by blast
    then show "weekday \<lparr>year = y, month = m, day = j + 1 + int i\<rparr> \<noteq> wd"
      by (simp add: algebra_simps)
  qed
  have "seek_weekday_forward \<lparr>year = y, month = m, day = j + 1\<rparr> wd
        = Inr \<lparr>year = y, month = m, day = j + 1 + int k\<rparr>"
    using Suc.prems later by (intro Suc.IH) (simp_all add: algebra_simps)
  then show ?case
    using ne dn by (subst seek_weekday_forward.simps) (simp add: algebra_simps)
qed

lemma add_weeks_in_month:
  assumes "MINYEAR \<le> y" "y \<le> MAXYEAR" "1 \<le> m" "m \<le> 12"
    and "1 \<le> j" "j + 7 * int k \<le> days_in_month y m"
  shows "add_weeks k \<lparr>year = y, month = m, day = j\<rparr>
         = Inr \<lparr>year = y, month = m, day = j + 7 * int k\<rparr>"
  using assms(5,6)
proof (induction k arbitrary: j)
  case 0
  then show ?case by simp
next
  case (Suc k)
  have dn: "date_new y m (j + 7) = Inr \<lparr>year = y, month = m, day = j + 7\<rparr>"
    using assms(1-4) Suc.prems by (simp add: date_new_ok)
  have "add_weeks k \<lparr>year = y, month = m, day = j + 7\<rparr>
        = Inr \<lparr>year = y, month = m, day = j + 7 + 7 * int k\<rparr>"
    using Suc.prems by (intro Suc.IH) simp_all
  then show ?case using dn by (simp add: algebra_simps)
qed

lemma add_weeks_past_month:
  assumes "MINYEAR \<le> y" "y \<le> MAXYEAR" "1 \<le> m" "m \<le> 12"
    and "1 \<le> j" "j \<le> days_in_month y m" "days_in_month y m < j + 7 * int k"
  shows "add_weeks k \<lparr>year = y, month = m, day = j\<rparr> = Inl ValueError"
  using assms(5-7)
proof (induction k arbitrary: j)
  case 0
  then show ?case by simp
next
  case (Suc k)
  show ?case
  proof (cases "date_new y m (j + 7)")
    case (Inl e)
    have "j + 7 \<le> 38" using Suc.prems(2) days_in_month_bounds [OF assms(3,4), of y] by simp
    then have "fits_c_int y" "fits_c_int m" "fits_c_int (j + 7)"
      using assms(1-4) Suc.prems(1) by (simp_all add: fits_c_int_def MINYEAR_def MAXYEAR_def)
    with Inl have "e = ValueError" by (auto simp: date_new_def split: if_splits)
    with Inl show ?thesis by simp
  next
    case (Inr d')
    then have d': "d' = \<lparr>year = y, month = m, day = j + 7\<rparr>" "j + 7 \<le> days_in_month y m"
      by (auto simp: date_new_def split: if_splits)
    have "add_weeks k \<lparr>year = y, month = m, day = j + 7\<rparr> = Inl ValueError"
      using Suc.prems d' by (intro Suc.IH) simp_all
    with Inr d' show ?thesis by simp
  qed
qed

lemma first_occurrence:
  fixes w1 wd :: int
  assumes "0 \<le> wd" "wd \<le> 6"
  shows "(w1 + (wd - w1) mod 7) mod 7 = wd"
    and "0 \<le> i \<Longrightarrow> i < (wd - w1) mod 7 \<Longrightarrow> (w1 + i) mod 7 \<noteq> wd"
proof -
  have "(w1 + (wd - w1) mod 7) mod 7 = (w1 + (wd - w1)) mod 7"
    by (rule mod_add_right_eq)
  then show "(w1 + (wd - w1) mod 7) mod 7 = wd"
    using assms by simp
  show "(w1 + i) mod 7 \<noteq> wd" if i: "0 \<le> i" "i < (wd - w1) mod 7"
  proof
    assume eq: "(w1 + i) mod 7 = wd"
    have "(wd - w1) mod 7 = ((w1 + i) mod 7 - w1) mod 7" by (simp only: eq)
    also have "\<dots> = (w1 + i - w1) mod 7" by (rule mod_diff_left_eq)
    also have "\<dots> = i mod 7" by simp
    finally have "(wd - w1) mod 7 = i mod 7" .
    moreover have "(wd - w1) mod 7 < 7" by simp
    ultimately show False using i by simp
  qed
qed

lemma last_occurrence:
  fixes wl wd :: int
  assumes "0 \<le> wd" "wd \<le> 6"
  shows "(wl - (wl - wd) mod 7) mod 7 = wd"
    and "0 \<le> i \<Longrightarrow> i < (wl - wd) mod 7 \<Longrightarrow> (wl - i) mod 7 \<noteq> wd"
proof -
  have "(wl - (wl - wd) mod 7) mod 7 = (wl - (wl - wd)) mod 7"
    by (rule mod_diff_right_eq)
  then show "(wl - (wl - wd) mod 7) mod 7 = wd"
    using assms by simp
  show "(wl - i) mod 7 \<noteq> wd" if i: "0 \<le> i" "i < (wl - wd) mod 7"
  proof
    assume eq: "(wl - i) mod 7 = wd"
    have "(wl - wd) mod 7 = (wl - (wl - i) mod 7) mod 7" by (simp only: eq)
    also have "\<dots> = (wl - (wl - i)) mod 7" by (rule mod_diff_right_eq)
    also have "\<dots> = i mod 7" by simp
    finally have "(wl - wd) mod 7 = i mod 7" .
    moreover have "(wl - wd) mod 7 < 7" by simp
    ultimately show False using i by simp
  qed
qed

text \<open>What \<open>nth_weekday_of_month\<close> computes, for a year and month in range.\<close>

lemma nth_weekday_of_month_eq:
  assumes ym: "MINYEAR \<le> y" "y \<le> MAXYEAR" "1 \<le> m" "m \<le> 12" and wd: "0 \<le> wd" "wd \<le> 6"
  shows "nth_weekday_of_month y m wd n =
     (let f = 1 + (wd - weekday \<lparr>year = y, month = m, day = 1\<rparr>) mod 7;
          d = f + 7 * int (nat (n - 1))
      in if d \<le> days_in_month y m then Inr \<lparr>year = y, month = m, day = d\<rparr>
         else Inl ValueError)"
proof -
  define w1 where "w1 = weekday \<lparr>year = y, month = m, day = 1\<rparr>"
  define k where "k = nat ((wd - w1) mod 7)"
  have k: "int k = (wd - w1) mod 7" "int k \<le> 6"
    by (simp_all add: k_def)
  have dim: "28 \<le> days_in_month y m" using days_in_month_bounds [of m y] ym by simp
  have d1: "date_new y m 1 = Inr \<lparr>year = y, month = m, day = 1\<rparr>"
    using ym dim by (simp add: date_new_ok)
  have wk: "weekday \<lparr>year = y, month = m, day = 1 + j\<rparr> = (w1 + j) mod 7" for j
    by (simp add: weekday_shift w1_def)
  have sf: "seek_weekday_forward \<lparr>year = y, month = m, day = 1\<rparr> wd
            = Inr \<lparr>year = y, month = m, day = 1 + int k\<rparr>"
  proof (rule seek_weekday_forward_finds [OF ym])
    show "1 + int k \<le> days_in_month y m" using k dim by simp
    show "\<forall>i<k. weekday \<lparr>year = y, month = m, day = 1 + int i\<rparr> \<noteq> wd"
      using first_occurrence(2) [OF wd, of _ w1] k by (simp add: wk)
    show "weekday \<lparr>year = y, month = m, day = 1 + int k\<rparr> = wd"
      using first_occurrence(1) [OF wd, of w1] k by (simp add: wk)
  qed simp
  have aw: "add_weeks j \<lparr>year = y, month = m, day = 1 + int k\<rparr>
      = (if 1 + int k + 7 * int j \<le> days_in_month y m
         then Inr \<lparr>year = y, month = m, day = 1 + int k + 7 * int j\<rparr> else Inl ValueError)" for j
    using add_weeks_in_month [OF ym, of "1 + int k" j]
      add_weeks_past_month [OF ym, of "1 + int k" j] k dim
    by simp
  show ?thesis
    unfolding nth_weekday_of_month_def Let_def w1_def [symmetric] k(1) [symmetric]
    by (simp add: d1 sf aw)
qed

text \<open>A date returned by \<open>nth_weekday_of_month\<close> is always in the month asked for.\<close>

lemma date_new_fields:
  "date_new y m d = Inr dt \<Longrightarrow> year dt = y \<and> month dt = m \<and> day dt = d"
  by (auto simp: date_new_def split: if_splits)

lemma seek_weekday_forward_month:
  "seek_weekday_forward d wd = Inr r \<Longrightarrow> year r = year d \<and> month r = month d"
proof (induction d wd rule: seek_weekday_forward.induct)
  case (1 d wd)
  show ?case
  proof (cases "weekday d \<noteq> wd")
    case True
    with "1.prems" obtain d' where d': "date_new (year d) (month d) (day d + 1) = Inr d'"
      and r: "seek_weekday_forward d' wd = Inr r"
      by (subst (asm) seek_weekday_forward.simps) (auto split: sum.splits)
    from "1.IH" [OF True d' r] date_new_fields [OF d'] show ?thesis by simp
  next
    case False
    with "1.prems" show ?thesis
      by (subst (asm) seek_weekday_forward.simps) simp
  qed
qed

lemma add_weeks_month:
  "add_weeks k d = Inr r \<Longrightarrow> year r = year d \<and> month r = month d"
proof (induction k arbitrary: d)
  case 0
  then show ?case by simp
next
  case (Suc k)
  then obtain d' where d': "date_new (year d) (month d) (day d + 7) = Inr d'"
    and r: "add_weeks k d' = Inr r"
    by (auto split: sum.splits)
  from Suc.IH [OF r] date_new_fields [OF d'] show ?case by simp
qed

lemma nth_weekday_of_month_stays:
  assumes "nth_weekday_of_month y m wd n = Inr r"
  shows "year r = y \<and> month r = m"
proof -
  from assms obtain d d1 where d: "date_new y m 1 = Inr d"
    and d1: "seek_weekday_forward d wd = Inr d1" and r: "add_weeks (nat (n - 1)) d1 = Inr r"
    by (auto simp: nth_weekday_of_month_def split: sum.splits)
  from date_new_fields [OF d] seek_weekday_forward_month [OF d1] add_weeks_month [OF r]
  show ?thesis by simp
qed


text \<open>
  The days of month \<open>m\<close> of year \<open>y\<close> that fall on weekday \<open>wd\<close>, in ascending
  order: the occurrences that a specification of the n-th weekday of a month counts.
  This definition follows the specification's words, not the source.
\<close>

definition weekday_days :: "int \<Rightarrow> int \<Rightarrow> int \<Rightarrow> int list" where
  "weekday_days y m wd =
     filter (\<lambda>k. weekday \<lparr>year = y, month = m, day = k\<rparr> = wd) [1..days_in_month y m]"

lemma filter_every_seventh:
  fixes f D :: int
  assumes f: "1 \<le> f" "f \<le> 7" and D: "0 \<le> D"
  shows "filter (\<lambda>k. (k - f) mod 7 = 0) [1..D] = map (\<lambda>i. f + 7 * i) [0..(D - f) div 7]"
  using D
proof (induction D rule: int_ge_induct)
  case base
  have "(0 - f) div 7 = - 1"
    by (rule int_div_pos_eq [where r = "7 - f"]) (use f in auto)
  then show ?case by simp
next
  case (step D)
  have up: "[1..D + 1] = [1..D] @ [D + 1]"
    using step.hyps upto_rec2 [of 1 "D + 1"] by simp
  have dv: "(D + 1 - f) div 7 = (D - f) div 7 + (if (D + 1 - f) mod 7 = 0 then 1 else 0)"
    using div_pred [of 7 "D + 1 - f"] by (simp add: algebra_simps)
  show ?case
  proof (cases "(D + 1 - f) mod 7 = 0")
    case True
    define q where "q = (D + 1 - f) div 7"
    have q: "D + 1 - f = 7 * q"
      using True mult_div_mod_eq [of 7 "D + 1 - f"] by (simp add: q_def)
    have q0: "0 \<le> q" using q step.hyps f by linarith
    have prev: "(D - f) div 7 = q - 1" using dv True by (simp add: q_def)
    have "[0..q] = [0..q - 1] @ [q]"
      using q0 upto_rec2 [of 0 q] by simp
    then show ?thesis
      using True step.IH q by (simp add: up prev q_def [symmetric])
  next
    case False
    then show ?thesis using step.IH dv by (simp add: up)
  qed
qed

lemma weekday_days_eq:
  assumes ym: "MINYEAR \<le> y" "y \<le> MAXYEAR" "1 \<le> m" "m \<le> 12" and wd: "0 \<le> wd" "wd \<le> 6"
  defines "f \<equiv> 1 + (wd - weekday \<lparr>year = y, month = m, day = 1\<rparr>) mod 7"
  shows "weekday_days y m wd = map (\<lambda>i. f + 7 * i) [0..(days_in_month y m - f) div 7]"
proof -
  define w1 where "w1 = weekday \<lparr>year = y, month = m, day = 1\<rparr>"
  have f: "1 \<le> f" "f \<le> 7" by (simp_all add: f_def)
  have wk: "weekday \<lparr>year = y, month = m, day = k\<rparr> = (w1 + (k - 1)) mod 7" for k
    using weekday_shift [of y m 1 "k - 1"] by (simp add: w1_def)
  have iff: "(weekday \<lparr>year = y, month = m, day = k\<rparr> = wd) = ((k - f) mod 7 = 0)" for k
  proof -
    have "(k - f) mod 7 = (k - 1 - (wd - w1) mod 7) mod 7"
      by (simp add: f_def w1_def algebra_simps)
    also have "\<dots> = (k - 1 - (wd - w1)) mod 7" by (rule mod_diff_right_eq)
    also have "\<dots> = ((w1 + (k - 1)) - wd) mod 7" by (simp add: algebra_simps)
    finally have e: "(k - f) mod 7 = ((w1 + (k - 1)) - wd) mod 7" .
    have "((w1 + (k - 1)) mod 7 = wd) = ((w1 + (k - 1)) mod 7 = wd mod 7)"
      using wd by simp
    also have "\<dots> = (((w1 + (k - 1)) - wd) mod 7 = 0)"
      by (simp add: mod_eq_dvd_iff mod_eq_0_iff_dvd)
    finally show ?thesis by (simp add: wk e)
  qed
  have dim: "0 \<le> days_in_month y m" using days_in_month_bounds [of m y] ym by simp
  show ?thesis
    unfolding weekday_days_def iff by (rule filter_every_seventh [OF f dim])
qed


lemma date_sub_one_in_month:
  assumes "valid_date \<lparr>year = y, month = m, day = d\<rparr>" "2 \<le> d"
  shows "date_sub_days \<lparr>year = y, month = m, day = d\<rparr> 1
         = Inr \<lparr>year = y, month = m, day = d - 1\<rparr>"
proof -
  have v: "valid_date \<lparr>year = y, month = m, day = d - 1\<rparr>"
    using assms by (simp add: valid_date_def)
  have o: "toordinal \<lparr>year = y, month = m, day = d\<rparr> - 1
           = toordinal \<lparr>year = y, month = m, day = d - 1\<rparr>"
    by (simp add: toordinal_def ymd2ord_def)
  show ?thesis
    using valid_date_ordinal [OF v] fromordinal_toordinal [OF v]
    by (simp add: date_sub_days_def date_add_days_def Let_def o)
qed

lemma date_sub_one_first:
  assumes "MINYEAR \<le> y" "y \<le> MAXYEAR" "1 \<le> m" "m \<le> 11"
  shows "date_sub_days \<lparr>year = y, month = m + 1, day = 1\<rparr> 1
         = Inr \<lparr>year = y, month = m, day = days_in_month y m\<rparr>"
proof -
  have v: "valid_date \<lparr>year = y, month = m, day = days_in_month y m\<rparr>"
    using assms days_in_month_bounds [of m y] by (simp add: valid_date_def)
  have o: "toordinal \<lparr>year = y, month = m + 1, day = 1\<rparr> - 1
           = toordinal \<lparr>year = y, month = m, day = days_in_month y m\<rparr>"
    using days_before_month_next [of m y] assms by (simp add: toordinal_def ymd2ord_def)
  show ?thesis
    using valid_date_ordinal [OF v] fromordinal_toordinal [OF v]
    by (simp add: date_sub_days_def date_add_days_def Let_def o)
qed

lemma seek_weekday_backward_finds:
  assumes "MINYEAR \<le> y" "y \<le> MAXYEAR" "1 \<le> m" "m \<le> 12"
    and "1 \<le> j - int k" "j \<le> days_in_month y m"
    and "\<forall>i<k. weekday \<lparr>year = y, month = m, day = j - int i\<rparr> \<noteq> wd"
    and "weekday \<lparr>year = y, month = m, day = j - int k\<rparr> = wd"
  shows "seek_weekday_backward \<lparr>year = y, month = m, day = j\<rparr> wd
         = Inr \<lparr>year = y, month = m, day = j - int k\<rparr>"
  using assms(5-8)
proof (induction k arbitrary: j)
  case 0
  then show ?case by (simp add: seek_weekday_backward.simps)
next
  case (Suc k)
  from Suc.prems(3) have ne: "weekday \<lparr>year = y, month = m, day = j\<rparr> \<noteq> wd"
    by (auto dest: spec [of _ 0])
  have "valid_date \<lparr>year = y, month = m, day = j\<rparr>"
    using assms(1-4) Suc.prems(1,2) by (simp add: valid_date_def)
  then have sb: "date_sub_days \<lparr>year = y, month = m, day = j\<rparr> 1
      = Inr \<lparr>year = y, month = m, day = j - 1\<rparr>"
    using Suc.prems(1) by (intro date_sub_one_in_month) simp_all
  have earlier: "\<forall>i<k. weekday \<lparr>year = y, month = m, day = j - 1 - int i\<rparr> \<noteq> wd"
  proof (intro allI impI)
    fix i assume "i < k"
    then have "Suc i < Suc k" by simp
    with Suc.prems(3) have "weekday \<lparr>year = y, month = m, day = j - int (Suc i)\<rparr> \<noteq> wd"
      by blast
    then show "weekday \<lparr>year = y, month = m, day = j - 1 - int i\<rparr> \<noteq> wd"
      by (simp add: algebra_simps)
  qed
  have "seek_weekday_backward \<lparr>year = y, month = m, day = j - 1\<rparr> wd
        = Inr \<lparr>year = y, month = m, day = j - 1 - int k\<rparr>"
    using Suc.prems earlier by (intro Suc.IH) (simp_all add: algebra_simps)
  then show ?case
    using ne sb by (subst seek_weekday_backward.simps) (simp add: algebra_simps)
qed

text \<open>What \<open>last_weekday_of_month\<close> computes, for a year and month in range.\<close>

lemma last_weekday_of_month_eq:
  assumes ym: "MINYEAR \<le> y" "y \<le> MAXYEAR" "1 \<le> m" "m \<le> 12" and wd: "0 \<le> wd" "wd \<le> 6"
  shows "last_weekday_of_month y m wd =
     (let dim = days_in_month y m;
          k = (weekday \<lparr>year = y, month = m, day = dim\<rparr> - wd) mod 7
      in Inr \<lparr>year = y, month = m, day = dim - k\<rparr>)"
proof -
  define dim where "dim = days_in_month y m"
  define wl where "wl = weekday \<lparr>year = y, month = m, day = dim\<rparr>"
  define k where "k = nat ((wl - wd) mod 7)"
  have k: "int k = (wl - wd) mod 7" "int k \<le> 6"
    by (simp_all add: k_def)
  have dim: "28 \<le> dim" using days_in_month_bounds [of m y] ym by (simp add: dim_def)
  have start: "(if m = 12 then date_new y 12 31
       else (case date_new y (m + 1) 1 of
               Inl e \<Rightarrow> Inl e
             | Inr first_next \<Rightarrow> date_sub_days first_next 1))
       = Inr \<lparr>year = y, month = m, day = dim\<rparr>"
  proof (cases "m = 12")
    case True
    then show ?thesis
      using ym by (simp add: date_new_ok dim_def days_in_month_def DAYS_IN_MONTH_def)
  next
    case False
    then have m11: "m \<le> 11" using ym by simp
    have "28 \<le> days_in_month y (m + 1)"
      using days_in_month_bounds [of "m + 1" y] ym m11 by simp
    then have "date_new y (m + 1) 1 = Inr \<lparr>year = y, month = m + 1, day = 1\<rparr>"
      using ym m11 by (simp add: date_new_ok)
    then show ?thesis
      using False date_sub_one_first [OF ym(1,2,3) m11] by (simp add: dim_def)
  qed
  have wk: "weekday \<lparr>year = y, month = m, day = dim - j\<rparr> = (wl - j) mod 7" for j
    using weekday_shift [of y m dim "- j"] by (simp add: wl_def)
  have sb: "seek_weekday_backward \<lparr>year = y, month = m, day = dim\<rparr> wd
            = Inr \<lparr>year = y, month = m, day = dim - int k\<rparr>"
  proof (rule seek_weekday_backward_finds [OF ym])
    show "1 \<le> dim - int k" using k dim by simp
    show "dim \<le> days_in_month y m" by (simp add: dim_def)
    show "\<forall>i<k. weekday \<lparr>year = y, month = m, day = dim - int i\<rparr> \<noteq> wd"
      using last_occurrence(2) [OF wd, of _ wl] k by (simp add: wk)
    show "weekday \<lparr>year = y, month = m, day = dim - int k\<rparr> = wd"
      using last_occurrence(1) [OF wd, of wl] k by (simp add: wk)
  qed
  show ?thesis
    unfolding last_weekday_of_month_def Let_def dim_def [symmetric] wl_def [symmetric]
      k(1) [symmetric] start
    by (simp add: sb)
qed


lemma foldl_hol_add_Inr:
  "foldl hol_add (Inr s) (map Inr ds) = Inr (set ds \<union> s)"
  by (induction ds arbitrary: s) (simp_all add: hol_add_def)

text \<open>
  An occurrence index up to 4 always exists, since every month has at least 28 days;
  the last occurrence of a weekday is within the last seven days of the month.
\<close>

lemma nth_weekday_of_month_early:
  assumes ym: "MINYEAR \<le> y" "y \<le> MAXYEAR" "1 \<le> m" "m \<le> 12" and wd: "0 \<le> wd" "wd \<le> 6"
    and n: "1 \<le> n" "n \<le> 4"
  shows "\<exists>k. 0 \<le> k \<and> k \<le> 6 \<and>
     nth_weekday_of_month y m wd n = Inr \<lparr>year = y, month = m, day = 7 * n - 6 + k\<rparr>"
proof -
  define k where "k = (wd - weekday \<lparr>year = y, month = m, day = 1\<rparr>) mod 7"
  have k: "0 \<le> k" "k \<le> 6" by (simp_all add: k_def)
  have nn: "int (nat (n - 1)) = n - 1" using n by simp
  have "28 \<le> days_in_month y m" using days_in_month_bounds [of m y] ym by simp
  then have fits: "1 + k + 7 * (n - 1) \<le> days_in_month y m" using k n by simp
  have e: "1 + k + 7 * (n - 1) = 7 * n - 6 + k" by simp
  have "nth_weekday_of_month y m wd n
      = Inr \<lparr>year = y, month = m, day = 1 + k + 7 * (n - 1)\<rparr>"
    unfolding nth_weekday_of_month_eq [OF ym wd] Let_def k_def [symmetric] nn
    using fits by (simp only: if_True)
  then show ?thesis using k unfolding e by blast
qed

lemma last_weekday_of_month_late:
  assumes ym: "MINYEAR \<le> y" "y \<le> MAXYEAR" "1 \<le> m" "m \<le> 12" and wd: "0 \<le> wd" "wd \<le> 6"
  shows "\<exists>k. 0 \<le> k \<and> k \<le> 6 \<and>
     last_weekday_of_month y m wd = Inr \<lparr>year = y, month = m, day = days_in_month y m - k\<rparr>"
proof -
  define k where
    "k = (weekday \<lparr>year = y, month = m, day = days_in_month y m\<rparr> - wd) mod 7"
  have k: "0 \<le> k" "k \<le> 6" by (simp_all add: k_def)
  have "last_weekday_of_month y m wd
      = Inr \<lparr>year = y, month = m, day = days_in_month y m - k\<rparr>"
    unfolding last_weekday_of_month_eq [OF ym wd] Let_def k_def [symmetric] ..
  then show ?thesis using k by blast
qed


text \<open>The ten dates of a year in range, rule by rule.\<close>

lemma holiday_rules_eq:
  assumes y: "MINYEAR \<le> y" "y \<le> MAXYEAR"
  shows "\<exists>d1 d2 d3 d4 d5 d6.
     15 \<le> d1 \<and> d1 \<le> 21 \<and> 15 \<le> d2 \<and> d2 \<le> 21 \<and> 25 \<le> d3 \<and> d3 \<le> 31 \<and>
     1 \<le> d4 \<and> d4 \<le> 7 \<and> 8 \<le> d5 \<and> d5 \<le> 14 \<and> 22 \<le> d6 \<and> d6 \<le> 28 \<and>
     holiday_rules y = map Inr
       [\<lparr>year = y, month = 1, day = 1\<rparr>,
        \<lparr>year = y, month = 7, day = 4\<rparr>,
        \<lparr>year = y, month = 11, day = 11\<rparr>,
        \<lparr>year = y, month = 12, day = 25\<rparr>,
        \<lparr>year = y, month = 1, day = d1\<rparr>,
        \<lparr>year = y, month = 2, day = d2\<rparr>,
        \<lparr>year = y, month = 5, day = d3\<rparr>,
        \<lparr>year = y, month = 9, day = d4\<rparr>,
        \<lparr>year = y, month = 10, day = d5\<rparr>,
        \<lparr>year = y, month = 11, day = d6\<rparr>]"
proof -
  have dim: "28 \<le> days_in_month y m" if "1 \<le> m" "m \<le> 12" for m
    using days_in_month_bounds [of m y] that by simp
  have f1: "date_new y 1 1 = Inr \<lparr>year = y, month = 1, day = 1\<rparr>"
    using y dim [of 1] by (simp add: date_new_ok)
  have f2: "date_new y 7 4 = Inr \<lparr>year = y, month = 7, day = 4\<rparr>"
    using y dim [of 7] by (simp add: date_new_ok)
  have f3: "date_new y 11 11 = Inr \<lparr>year = y, month = 11, day = 11\<rparr>"
    using y dim [of 11] by (simp add: date_new_ok)
  have f4: "date_new y 12 25 = Inr \<lparr>year = y, month = 12, day = 25\<rparr>"
    using y dim [of 12] by (simp add: date_new_ok)
  have may: "days_in_month y 5 = 31"
    by (simp add: days_in_month_def DAYS_IN_MONTH_def)
  obtain k1 where k1: "0 \<le> k1" "k1 \<le> 6"
    "nth_weekday_of_month y 1 0 3 = Inr \<lparr>year = y, month = 1, day = 15 + k1\<rparr>"
    using nth_weekday_of_month_early [OF y, of 1 0 3] by auto
  obtain k2 where k2: "0 \<le> k2" "k2 \<le> 6"
    "nth_weekday_of_month y 2 0 3 = Inr \<lparr>year = y, month = 2, day = 15 + k2\<rparr>"
    using nth_weekday_of_month_early [OF y, of 2 0 3] by auto
  obtain k3 where k3: "0 \<le> k3" "k3 \<le> 6"
    "last_weekday_of_month y 5 0 = Inr \<lparr>year = y, month = 5, day = 31 - k3\<rparr>"
    using last_weekday_of_month_late [OF y, of 5 0] may by auto
  obtain k4 where k4: "0 \<le> k4" "k4 \<le> 6"
    "nth_weekday_of_month y 9 0 1 = Inr \<lparr>year = y, month = 9, day = 1 + k4\<rparr>"
    using nth_weekday_of_month_early [OF y, of 9 0 1] by auto
  obtain k5 where k5: "0 \<le> k5" "k5 \<le> 6"
    "nth_weekday_of_month y 10 0 2 = Inr \<lparr>year = y, month = 10, day = 8 + k5\<rparr>"
    using nth_weekday_of_month_early [OF y, of 10 0 2] by auto
  obtain k6 where k6: "0 \<le> k6" "k6 \<le> 6"
    "nth_weekday_of_month y 11 3 4 = Inr \<lparr>year = y, month = 11, day = 22 + k6\<rparr>"
    using nth_weekday_of_month_early [OF y, of 11 3 4] by auto
  have rules: "holiday_rules y = map Inr
       [\<lparr>year = y, month = 1, day = 1\<rparr>,
        \<lparr>year = y, month = 7, day = 4\<rparr>,
        \<lparr>year = y, month = 11, day = 11\<rparr>,
        \<lparr>year = y, month = 12, day = 25\<rparr>,
        \<lparr>year = y, month = 1, day = 15 + k1\<rparr>,
        \<lparr>year = y, month = 2, day = 15 + k2\<rparr>,
        \<lparr>year = y, month = 5, day = 31 - k3\<rparr>,
        \<lparr>year = y, month = 9, day = 1 + k4\<rparr>,
        \<lparr>year = y, month = 10, day = 8 + k5\<rparr>,
        \<lparr>year = y, month = 11, day = 22 + k6\<rparr>]"
    unfolding holiday_rules_def f1 f2 f3 f4 k1(3) k2(3) k3(3) k4(3) k5(3) k6(3)
    by (simp only: list.map)
  have b: "15 \<le> 15 + k1" "15 + k1 \<le> 21" "15 \<le> 15 + k2" "15 + k2 \<le> 21"
    "25 \<le> 31 - k3" "31 - k3 \<le> 31" "1 \<le> 1 + k4" "1 + k4 \<le> 7"
    "8 \<le> 8 + k5" "8 + k5 \<le> 14" "22 \<le> 22 + k6" "22 + k6 \<le> 28"
    using k1(1,2) k2(1,2) k3(1,2) k4(1,2) k5(1,2) k6(1,2) by simp_all
  from b rules show ?thesis by blast
qed


subsection \<open>The claims about the holiday calendar\<close>

text \<open>
  C1, as stated, fails. The claim says that stepping forward seven days from a date
  near the end of a month lands in the following month. The source steps with
  \<^verbatim>\<open>date(d.year, d.month, d.day + 7)\<close>, which keeps the month: the fifth Monday of
  January 2024 is the 29th, and asking for a sixth makes the constructor raise
  \<^verbatim>\<open>ValueError\<close> on day 36 instead of giving February 5.
\<close>

theorem nth_weekday_of_month_no_rollover:
  "nth_weekday_of_month 2024 1 0 5 = Inr \<lparr>year = 2024, month = 1, day = 29\<rparr> \<and>
   date_new 2024 1 (29 + 7) = Inl ValueError \<and>
   nth_weekday_of_month 2024 1 0 6 = Inl ValueError"
  by code_simp

text \<open>
  C1, amended: the forward stepping stays inside the month. For a year and month in
  range and a weekday from 0 to 6, the one-day steps stop at the first day \<open>f\<close> of the
  month on that weekday, which is among the first seven; the seven-day steps then give
  day \<open>f + 7 * (n - 1)\<close> of the same month and year when the month has such a day, and
  raise \<^verbatim>\<open>ValueError\<close> when it has not.
\<close>

theorem nth_weekday_of_month_within_month:
  assumes "MINYEAR \<le> y" "y \<le> MAXYEAR" "1 \<le> m" "m \<le> 12" "0 \<le> wd" "wd \<le> 6"
  shows "nth_weekday_of_month y m wd n =
     (let f = 1 + (wd - weekday \<lparr>year = y, month = m, day = 1\<rparr>) mod 7;
          d = f + 7 * int (nat (n - 1))
      in if d \<le> days_in_month y m then Inr \<lparr>year = y, month = m, day = d\<rparr>
         else Inl ValueError)"
  using assms by (rule nth_weekday_of_month_eq)

theorem nth_weekday_of_month_within_month_witness:
  "nth_weekday_of_month 2024 1 0 6 =
     (let f = 1 + (0 - weekday \<lparr>year = 2024, month = 1, day = 1\<rparr>) mod 7;
          d = f + 7 * int (nat (6 - 1))
      in if d \<le> days_in_month 2024 1 then Inr \<lparr>year = 2024, month = 1, day = d\<rparr>
         else Inl ValueError) \<and>
   1 + (0 - weekday \<lparr>year = 2024, month = 1, day = 1\<rparr>) mod 7 + 7 * int (nat (6 - 1)) = 36 \<and>
   days_in_month 2024 1 = 31"
proof -
  have h: "MINYEAR \<le> 2024" "2024 \<le> MAXYEAR" by (simp_all add: MINYEAR_def MAXYEAR_def)
  have w: "weekday \<lparr>year = 2024, month = 1, day = 1\<rparr> = 0" by code_simp
  have d: "days_in_month 2024 1 = 31" by code_simp
  from nth_weekday_of_month_within_month [OF h, of 1 0 6] w d show ?thesis by simp
qed

text \<open>
  C2, as stated for every integer year, fails outside the range of Python's
  \<^verbatim>\<open>date\<close> type: for year 0 the first \<^verbatim>\<open>date(y, 1, 1)\<close> raises.
\<close>

theorem build_us_holidays_for_year_zero:
  "build_us_holidays_for_year 0 = Inl ValueError"
  by code_simp

text \<open>
  C2, amended: for every year from \<open>MINYEAR\<close> to \<open>MAXYEAR\<close> the ten rules each give a
  date, the ten dates are pairwise distinct, all lie in the year asked for, and the
  function returns the set of them, which has exactly ten elements.
\<close>

theorem build_us_holidays_for_year_ten:
  assumes "MINYEAR \<le> y" "y \<le> MAXYEAR"
  shows "\<exists>ds. holiday_rules y = map Inr ds \<and> length ds = 10 \<and> distinct ds \<and>
           build_us_holidays_for_year y = Inr (set ds) \<and> card (set ds) = 10 \<and>
           (\<forall>d \<in> set ds. year d = y)"
proof -
  from holiday_rules_eq [OF assms] obtain d1 d2 d3 d4 d5 d6 where
    b: "15 \<le> d1" "d1 \<le> 21" "15 \<le> d2" "d2 \<le> 21" "25 \<le> d3" "d3 \<le> 31"
       "1 \<le> d4" "d4 \<le> 7" "8 \<le> d5" "d5 \<le> 14" "22 \<le> d6" "d6 \<le> 28"
    and r: "holiday_rules y = map Inr
       [\<lparr>year = y, month = 1, day = 1\<rparr>,
        \<lparr>year = y, month = 7, day = 4\<rparr>,
        \<lparr>year = y, month = 11, day = 11\<rparr>,
        \<lparr>year = y, month = 12, day = 25\<rparr>,
        \<lparr>year = y, month = 1, day = d1\<rparr>,
        \<lparr>year = y, month = 2, day = d2\<rparr>,
        \<lparr>year = y, month = 5, day = d3\<rparr>,
        \<lparr>year = y, month = 9, day = d4\<rparr>,
        \<lparr>year = y, month = 10, day = d5\<rparr>,
        \<lparr>year = y, month = 11, day = d6\<rparr>]"
    by blast
  define ds where "ds =
       [\<lparr>year = y, month = 1, day = 1\<rparr>,
        \<lparr>year = y, month = 7, day = 4\<rparr>,
        \<lparr>year = y, month = 11, day = 11\<rparr>,
        \<lparr>year = y, month = 12, day = 25\<rparr>,
        \<lparr>year = y, month = 1, day = d1\<rparr>,
        \<lparr>year = y, month = 2, day = d2\<rparr>,
        \<lparr>year = y, month = 5, day = d3\<rparr>,
        \<lparr>year = y, month = 9, day = d4\<rparr>,
        \<lparr>year = y, month = 10, day = d5\<rparr>,
        \<lparr>year = y, month = 11, day = d6\<rparr>]"
  have rules: "holiday_rules y = map Inr ds" using r by (simp only: ds_def)
  have len: "length ds = 10" by (simp add: ds_def)
  have dist: "distinct ds" using b by (simp add: ds_def)
  have yr: "\<forall>d \<in> set ds. year d = y" by (simp add: ds_def)
  have build: "build_us_holidays_for_year y = Inr (set ds)"
    unfolding build_us_holidays_for_year_def rules
    using foldl_hol_add_Inr [of "{}" ds] by simp
  have "card (set ds) = 10" using distinct_card [OF dist] len by simp
  with rules len dist build yr show ?thesis by blast
qed

theorem build_us_holidays_for_year_ten_witness:
  "MINYEAR \<le> 2023 \<and> 2023 \<le> MAXYEAR \<and>
   (\<exists>ds. holiday_rules 2023 = map Inr ds \<and> length ds = 10 \<and> distinct ds \<and>
      build_us_holidays_for_year 2023 = Inr (set ds) \<and> card (set ds) = 10 \<and>
      (\<forall>d \<in> set ds. year d = 2023))"
proof -
  have h: "MINYEAR \<le> 2023" "2023 \<le> MAXYEAR" by (simp_all add: MINYEAR_def MAXYEAR_def)
  from build_us_holidays_for_year_ten [OF h] h show ?thesis by simp
qed


text \<open>
  C4. For a year and month in range, a weekday from 0 to 6 and a 1-based index \<open>n\<close>
  such that the month has at least \<open>n\<close> days falling on that weekday,
  \<open>nth_weekday_of_month\<close> returns a date of that year and month, on that weekday,
  whose day lies in \<open>1 + 7 * (n - 1) .. 7 * n\<close>; it is the \<open>n\<close>-th of the month's days
  on that weekday.
\<close>

theorem nth_weekday_of_month_nth_occurrence:
  assumes ym: "MINYEAR \<le> y" "y \<le> MAXYEAR" "1 \<le> m" "m \<le> 12"
    and wd: "0 \<le> wd" "wd \<le> 6"
    and n: "1 \<le> n" "nat n \<le> length (weekday_days y m wd)"
  shows "\<exists>d. nth_weekday_of_month y m wd n = Inr d \<and> year d = y \<and> month d = m \<and>
           weekday d = wd \<and> 1 + 7 * (n - 1) \<le> day d \<and> day d \<le> 7 * n \<and>
           day d = weekday_days y m wd ! nat (n - 1)"
proof -
  define f where "f = 1 + (wd - weekday \<lparr>year = y, month = m, day = 1\<rparr>) mod 7"
  define q where "q = (days_in_month y m - f) div 7"
  have f: "1 \<le> f" "f \<le> 7" by (simp_all add: f_def)
  have occ: "weekday_days y m wd = map (\<lambda>i. f + 7 * i) [0..q]"
    using weekday_days_eq [OF ym wd] by (simp add: f_def q_def)
  have nq: "n - 1 \<le> q" using n by (simp add: occ)
  have "7 * q \<le> days_in_month y m - f"
    using mult_div_mod_eq [of 7 "days_in_month y m - f"]
      pos_mod_sign [of 7 "days_in_month y m - f"] by (simp add: q_def)
  moreover have "7 * (n - 1) \<le> 7 * q" using nq by simp
  ultimately have fits: "f + 7 * (n - 1) \<le> days_in_month y m" by simp
  have nn: "int (nat (n - 1)) = n - 1" using n by simp
  define d where "d = \<lparr>year = y, month = m, day = f + 7 * (n - 1)\<rparr>"
  have res: "nth_weekday_of_month y m wd n = Inr d"
    using nth_weekday_of_month_eq [OF ym wd, of n] fits n(1)
    by (simp add: Let_def f_def [symmetric] d_def)
  have idx: "weekday_days y m wd ! nat (n - 1) = f + 7 * (n - 1)"
    using nq n by (simp add: occ nn)
  have "nat (n - 1) < length (weekday_days y m wd)" using n by linarith
  then have "weekday_days y m wd ! nat (n - 1) \<in> set (weekday_days y m wd)"
    by (rule nth_mem)
  then have "f + 7 * (n - 1) \<in> set (weekday_days y m wd)"
    by (simp only: idx)
  then have wk: "weekday d = wd"
    by (simp add: weekday_days_def d_def)
  show ?thesis
    using res wk idx f by (intro exI [of _ d]) (simp add: d_def)
qed

theorem nth_weekday_of_month_nth_occurrence_witness:
  "MINYEAR \<le> 2024 \<and> 2024 \<le> MAXYEAR \<and> nat 4 \<le> length (weekday_days 2024 11 3) \<and>
   (\<exists>d. nth_weekday_of_month 2024 11 3 4 = Inr d \<and> year d = 2024 \<and> month d = 11 \<and>
      weekday d = 3 \<and> 1 + 7 * (4 - 1) \<le> day d \<and> day d \<le> 7 * 4 \<and>
      day d = weekday_days 2024 11 3 ! nat (4 - 1))"
proof -
  have h: "MINYEAR \<le> 2024" "2024 \<le> MAXYEAR" by (simp_all add: MINYEAR_def MAXYEAR_def)
  have l: "nat 4 \<le> length (weekday_days 2024 11 3)" by code_simp
  from nth_weekday_of_month_nth_occurrence [of 2024 11 3 4] h l
  show ?thesis by simp
qed

text \<open>
  C5. For a year and month in range and a weekday from 0 to 6,
  \<open>last_weekday_of_month\<close> returns a date of that year and month on that weekday, and
  no later day of the month falls on that weekday. For December the search starts at
  December 31, built directly, with no date of a following month constructed.
\<close>

theorem last_weekday_of_month_last_occurrence:
  assumes ym: "MINYEAR \<le> y" "y \<le> MAXYEAR" "1 \<le> m" "m \<le> 12"
    and wd: "0 \<le> wd" "wd \<le> 6"
  shows "\<exists>d. last_weekday_of_month y m wd = Inr d \<and> year d = y \<and> month d = m \<and>
           weekday d = wd \<and> 1 \<le> day d \<and> day d \<le> days_in_month y m \<and>
           (\<forall>j. day d < j \<and> j \<le> days_in_month y m \<longrightarrow>
                weekday \<lparr>year = y, month = m, day = j\<rparr> \<noteq> wd) \<and>
           (m = 12 \<longrightarrow> last_weekday_of_month y m wd
                     = seek_weekday_backward \<lparr>year = y, month = 12, day = 31\<rparr> wd)"
proof -
  define dim where "dim = days_in_month y m"
  define wl where "wl = weekday \<lparr>year = y, month = m, day = dim\<rparr>"
  define k where "k = (wl - wd) mod 7"
  define d where "d = \<lparr>year = y, month = m, day = dim - k\<rparr>"
  have k: "0 \<le> k" "k \<le> 6" by (simp_all add: k_def)
  have dim: "28 \<le> dim" using days_in_month_bounds [of m y] ym by (simp add: dim_def)
  have res: "last_weekday_of_month y m wd = Inr d"
    using last_weekday_of_month_eq [OF ym wd]
    by (simp add: Let_def dim_def [symmetric] wl_def [symmetric] k_def [symmetric] d_def)
  have wk: "weekday \<lparr>year = y, month = m, day = dim - j\<rparr> = (wl - j) mod 7" for j
    using weekday_shift [of y m dim "- j"] by (simp add: wl_def)
  have on: "weekday d = wd"
    using last_occurrence(1) [OF wd, of wl] by (simp add: d_def wk k_def)
  have later: "weekday \<lparr>year = y, month = m, day = j\<rparr> \<noteq> wd"
    if "day d < j \<and> j \<le> days_in_month y m" for j
  proof -
    from that have "0 \<le> dim - j" "dim - j < (wl - wd) mod 7"
      by (simp_all add: d_def dim_def k_def)
    from last_occurrence(2) [OF wd this] wk [of "dim - j"] show ?thesis by simp
  qed
  have dec: "last_weekday_of_month y m wd
      = seek_weekday_backward \<lparr>year = y, month = 12, day = 31\<rparr> wd" if "m = 12"
    using that ym
    by (simp add: last_weekday_of_month_def date_new_ok days_in_month_def DAYS_IN_MONTH_def)
  show ?thesis
    using res on later dec k dim
    by (intro exI [of _ d]) (simp add: d_def dim_def)
qed

theorem last_weekday_of_month_last_occurrence_witness:
  "MINYEAR \<le> 2024 \<and> 2024 \<le> MAXYEAR \<and>
   (\<exists>d. last_weekday_of_month 2024 12 3 = Inr d \<and> year d = 2024 \<and> month d = 12 \<and>
      weekday d = 3 \<and> 1 \<le> day d \<and> day d \<le> days_in_month 2024 12 \<and>
      (\<forall>j. day d < j \<and> j \<le> days_in_month 2024 12 \<longrightarrow>
           weekday \<lparr>year = 2024, month = 12, day = j\<rparr> \<noteq> 3) \<and>
      last_weekday_of_month 2024 12 3
        = seek_weekday_backward \<lparr>year = 2024, month = 12, day = 31\<rparr> 3)"
proof -
  have h: "MINYEAR \<le> 2024" "2024 \<le> MAXYEAR" by (simp_all add: MINYEAR_def MAXYEAR_def)
  from last_weekday_of_month_last_occurrence [OF h, of 12 3] h
  show ?thesis by simp
qed

text \<open>
  C8. For 2024 the ten rules give, in the source's order, January 1, July 4,
  November 11, December 25, then MLK Day January 15, Presidents Day February 19,
  Memorial Day May 27, Labor Day September 2, Columbus Day October 14 and Thanksgiving
  November 28; the set returned holds exactly these, and January 15 is a Monday.
\<close>

theorem build_us_holidays_for_year_2024:
  "holiday_rules 2024 = map Inr
     [\<lparr>year = 2024, month = 1, day = 1\<rparr>,
      \<lparr>year = 2024, month = 7, day = 4\<rparr>,
      \<lparr>year = 2024, month = 11, day = 11\<rparr>,
      \<lparr>year = 2024, month = 12, day = 25\<rparr>,
      \<lparr>year = 2024, month = 1, day = 15\<rparr>,
      \<lparr>year = 2024, month = 2, day = 19\<rparr>,
      \<lparr>year = 2024, month = 5, day = 27\<rparr>,
      \<lparr>year = 2024, month = 9, day = 2\<rparr>,
      \<lparr>year = 2024, month = 10, day = 14\<rparr>,
      \<lparr>year = 2024, month = 11, day = 28\<rparr>] \<and>
   build_us_holidays_for_year 2024 = Inr
     {\<lparr>year = 2024, month = 1, day = 1\<rparr>,
      \<lparr>year = 2024, month = 7, day = 4\<rparr>,
      \<lparr>year = 2024, month = 11, day = 11\<rparr>,
      \<lparr>year = 2024, month = 12, day = 25\<rparr>,
      \<lparr>year = 2024, month = 1, day = 15\<rparr>,
      \<lparr>year = 2024, month = 2, day = 19\<rparr>,
      \<lparr>year = 2024, month = 5, day = 27\<rparr>,
      \<lparr>year = 2024, month = 9, day = 2\<rparr>,
      \<lparr>year = 2024, month = 10, day = 14\<rparr>,
      \<lparr>year = 2024, month = 11, day = 28\<rparr>} \<and>
   weekday \<lparr>year = 2024, month = 1, day = 15\<rparr> = 0"
proof -
  have r: "holiday_rules 2024 = map Inr
     [\<lparr>year = 2024, month = 1, day = 1\<rparr>,
      \<lparr>year = 2024, month = 7, day = 4\<rparr>,
      \<lparr>year = 2024, month = 11, day = 11\<rparr>,
      \<lparr>year = 2024, month = 12, day = 25\<rparr>,
      \<lparr>year = 2024, month = 1, day = 15\<rparr>,
      \<lparr>year = 2024, month = 2, day = 19\<rparr>,
      \<lparr>year = 2024, month = 5, day = 27\<rparr>,
      \<lparr>year = 2024, month = 9, day = 2\<rparr>,
      \<lparr>year = 2024, month = 10, day = 14\<rparr>,
      \<lparr>year = 2024, month = 11, day = 28\<rparr>]"
    by code_simp
  have w: "weekday \<lparr>year = 2024, month = 1, day = 15\<rparr> = 0" by code_simp
  show ?thesis
    unfolding build_us_holidays_for_year_def r foldl_hol_add_Inr using w
    by (simp add: insert_commute)
qed


section \<open>The engineered calendar columns\<close>

text \<open>
  The date column after \<^verbatim>\<open>pd.to_datetime(..., errors="coerce")\<close>: each row holds a
  date or is missing (\<^verbatim>\<open>NaT\<close>), which is \<open>None\<close> here. Only the calendar date of a
  timestamp matters to the code below.
\<close>

fun dropna :: "'a option list \<Rightarrow> 'a list" where
  "dropna [] = []"
| "dropna (None # xs) = dropna xs"
| "dropna (Some x # xs) = x # dropna xs"

text \<open>
  \<^verbatim>\<open>for dval in df[date_col].dropna(): y = dval.year; if y not in years: years.append(y)\<close>
\<close>

fun collect_years :: "int list \<Rightarrow> date list \<Rightarrow> int list" where
  "collect_years years [] = years"
| "collect_years years (dval # rest) =
     (if year dval \<notin> set years then collect_years (years @ [year dval]) rest
      else collect_years years rest)"

text \<open>
  \<^verbatim>\<open>for y in years: holiday_calendar[y] = build_us_holidays_for_year(y)\<close>; an exception
  raised for one year ends the script.
\<close>

fun build_calendar :: "(int \<rightharpoonup> date set) \<Rightarrow> int list \<Rightarrow> py_error + (int \<rightharpoonup> date set)" where
  "build_calendar cal [] = Inr cal"
| "build_calendar cal (y # ys) =
     (case build_us_holidays_for_year y of
        Inl e \<Rightarrow> Inl e
      | Inr hol \<Rightarrow> build_calendar (cal(y \<mapsto> hol)) ys)"

text \<open>
  One pass of the row loop: \<^verbatim>\<open>np.nan\<close> for a missing date, otherwise whether the
  date's year has a calendar and the date is in it.
\<close>

definition is_holiday_val :: "(int \<rightharpoonup> date set) \<Rightarrow> date option \<Rightarrow> bool option" where
  "is_holiday_val cal dval =
     (case dval of
        None \<Rightarrow> None
      | Some the_date \<Rightarrow>
          Some (case cal (year the_date) of
                  None \<Rightarrow> False
                | Some hol \<Rightarrow> the_date \<in> hol))"

text \<open>
  \<^verbatim>\<open>df[date_col].dt.weekday >= 5\<close>: the weekday of a missing date is \<^verbatim>\<open>NaN\<close>, and a
  comparison with \<^verbatim>\<open>NaN\<close> is false.
\<close>

definition dt_weekday :: "date option \<Rightarrow> int option" where
  "dt_weekday dval = map_option weekday dval"

definition ge_nan :: "int option \<Rightarrow> int \<Rightarrow> bool" where
  "ge_nan x k = (case x of None \<Rightarrow> False | Some v \<Rightarrow> k \<le> v)"

definition is_weekend :: "date option list \<Rightarrow> bool list" where
  "is_weekend col = map (\<lambda>dval. ge_nan (dt_weekday dval) 5) col"

text \<open>The two engineered flag columns, in the script's order.\<close>

definition engineered_flags :: "date option list \<Rightarrow> py_error + (bool option list \<times> bool list)" where
  "engineered_flags col =
     (let years = sort (collect_years [] (dropna col))
      in case build_calendar Map.empty years of
           Inl e \<Rightarrow> Inl e
         | Inr holiday_calendar \<Rightarrow>
             Inr (map (is_holiday_val holiday_calendar) col, is_weekend col))"

lemma set_dropna: "set (dropna xs) = {x. Some x \<in> set xs}"
  by (induction xs rule: dropna.induct) auto

lemma set_collect_years: "set (collect_years years ds) = set years \<union> year ` set ds"
  by (induction years ds rule: collect_years.induct) auto

lemma build_us_holidays_for_year_ok:
  assumes "MINYEAR \<le> y" "y \<le> MAXYEAR"
  shows "\<exists>hol. build_us_holidays_for_year y = Inr hol"
proof -
  from holiday_rules_eq [OF assms] obtain ds where "holiday_rules y = map Inr ds"
    by blast
  then show ?thesis
    by (simp add: build_us_holidays_for_year_def foldl_hol_add_Inr)
qed

lemma build_calendar_ok:
  assumes "\<forall>y \<in> set ys. MINYEAR \<le> y \<and> y \<le> MAXYEAR"
  shows "\<exists>cal'. build_calendar cal ys = Inr cal'"
  using assms
proof (induction ys arbitrary: cal)
  case Nil
  show ?case by simp
next
  case (Cons y ys)
  then obtain hol where "build_us_holidays_for_year y = Inr hol"
    using build_us_holidays_for_year_ok [of y] by auto
  with Cons show ?case by simp
qed

text \<open>
  C9. A row whose date is missing gets a missing \<open>is_holiday\<close> and a \<open>False\<close>
  \<open>is_weekend\<close>; a row with a date gets a \<open>is_holiday\<close> that is not missing. The
  dates of the column are those of \<^verbatim>\<open>date\<close> objects, so they satisfy the class
  invariant, and then building the calendar raises nothing.
\<close>

theorem missing_date_flags:
  assumes "\<forall>d. Some d \<in> set col \<longrightarrow> valid_date d"
  shows "\<exists>hol wk. engineered_flags col = Inr (hol, wk) \<and>
           length hol = length col \<and> length wk = length col \<and>
           (\<forall>i < length col. col ! i = None \<longrightarrow> hol ! i = None \<and> wk ! i = False) \<and>
           (\<forall>i < length col. col ! i \<noteq> None \<longrightarrow> hol ! i \<noteq> None)"
proof -
  define years where "years = sort (collect_years [] (dropna col))"
  have "\<forall>y \<in> set years. MINYEAR \<le> y \<and> y \<le> MAXYEAR"
    using assms by (auto simp: years_def set_collect_years set_dropna valid_date_def)
  from build_calendar_ok [OF this] obtain cal where
    cal: "build_calendar Map.empty years = Inr cal" by blast
  have res: "engineered_flags col = Inr (map (is_holiday_val cal) col, is_weekend col)"
    by (simp add: engineered_flags_def Let_def years_def [symmetric] cal)
  have miss: "map (is_holiday_val cal) col ! i = None \<and> is_weekend col ! i = False"
    if "i < length col" "col ! i = None" for i
    using that by (simp add: is_holiday_val_def is_weekend_def dt_weekday_def ge_nan_def)
  have pres: "map (is_holiday_val cal) col ! i \<noteq> None"
    if "i < length col" "col ! i \<noteq> None" for i
    using that by (auto simp: is_holiday_val_def)
  show ?thesis
    using res miss pres
    by (intro exI [of _ "map (is_holiday_val cal) col"] exI [of _ "is_weekend col"])
      (simp add: is_weekend_def)
qed

theorem missing_date_flags_witness:
  "engineered_flags
     [Some \<lparr>year = 2024, month = 7, day = 4\<rparr>, None, Some \<lparr>year = 2024, month = 7, day = 6\<rparr>]
     = Inr ([Some True, None, Some False], [False, False, True]) \<and>
   (\<exists>hol wk. engineered_flags
       [Some \<lparr>year = 2024, month = 7, day = 4\<rparr>, None,
        Some \<lparr>year = 2024, month = 7, day = 6\<rparr>] = Inr (hol, wk) \<and>
      length hol = 3 \<and> length wk = 3 \<and> hol ! 1 = None \<and> wk ! 1 = False \<and>
      hol ! 0 \<noteq> None \<and> hol ! 2 \<noteq> None)"
proof -
  let ?col = "[Some \<lparr>year = 2024, month = 7, day = 4\<rparr>, None,
               Some \<lparr>year = 2024, month = 7, day = 6\<rparr>]"
  have h: "\<forall>d. Some d \<in> set ?col \<longrightarrow> valid_date d"
    by (auto simp: valid_date_def MINYEAR_def MAXYEAR_def days_in_month_def DAYS_IN_MONTH_def)
  have e: "engineered_flags ?col = Inr ([Some True, None, Some False], [False, False, True])"
    by code_simp
  from missing_date_flags [OF h] obtain hol wk where
    r: "engineered_flags ?col = Inr (hol, wk)" "length hol = length ?col"
      "length wk = length ?col"
      "\<forall>i < length ?col. ?col ! i = None \<longrightarrow> hol ! i = None \<and> wk ! i = False"
      "\<forall>i < length ?col. ?col ! i \<noteq> None \<longrightarrow> hol ! i \<noteq> None"
    by blast
  from r(4) have "hol ! 1 = None \<and> wk ! 1 = False" by simp
  moreover from r(5) have "hol ! 0 \<noteq> None" "hol ! 2 \<noteq> None" by simp_all
  ultimately show ?thesis using e r(1,2,3) by auto
qed


section \<open>Double-precision numbers\<close>

text \<open>
  The values of a \<^verbatim>\<open>float64\<close>: not-a-number, the two infinities, and the finite
  numbers, each a real. Zero has no sign here: the comparisons and sums of the code
  below do not tell the two zeros apart.
\<close>

datatype fl = NaN | NInf | Fin real | PInf

text \<open>
  Rounding to the nearest integer, a tie going to the even neighbour.
\<close>

definition round_half_even :: "real \<Rightarrow> int" where
  "round_half_even y =
     (let f = \<lfloor>y\<rfloor>; r = y - of_int f
      in if r < 1 / 2 then f else if 1 / 2 < r then f + 1
         else if even f then f else f + 1)"

text \<open>
  A double has a significand of 53 bits and a binary exponent of at least \<open>- 1022\<close>:
  around \<open>x\<close> the doubles are the multiples of \<open>ulp x\<close>, which is \<open>2\<close> to the power
  \<open>\<lfloor>log\<^sub>2 \<bar>x\<bar>\<rfloor> - 52\<close>, and of \<open>2\<close> to the power \<open>- 1074\<close> below the normal range.
\<close>

definition binade :: "real \<Rightarrow> int" where
  "binade x = (if x = 0 then - 1022 else max \<lfloor>log 2 \<bar>x\<bar>\<rfloor> (- 1022))"

definition ulp :: "real \<Rightarrow> real" where
  "ulp x = 2 powr of_int (binade x - 52)"

text \<open>
  An arithmetic operation returns its exact result rounded to the nearest double, a tie
  to the one with an even significand; a result that rounds to \<open>2 ^ 1024\<close> or beyond is
  an infinity.
\<close>

definition round_to_double :: "real \<Rightarrow> real" where
  "round_to_double x = of_int (round_half_even (x / ulp x)) * ulp x"

definition rnd64 :: "real \<Rightarrow> fl" where
  "rnd64 x =
     (let y = round_to_double x
      in if 2 ^ 1024 \<le> y then PInf else if y \<le> - (2 ^ 1024) then NInf else Fin y)"

text \<open>
  Comparisons: every comparison with \<^verbatim>\<open>NaN\<close> is false.
\<close>

fun fl_le :: "fl \<Rightarrow> fl \<Rightarrow> bool" where
  "fl_le NaN _ = False"
| "fl_le _ NaN = False"
| "fl_le NInf _ = True"
| "fl_le _ PInf = True"
| "fl_le (Fin a) (Fin b) = (a \<le> b)"
| "fl_le _ _ = False"

fun fl_lt :: "fl \<Rightarrow> fl \<Rightarrow> bool" where
  "fl_lt NaN _ = False"
| "fl_lt _ NaN = False"
| "fl_lt PInf _ = False"
| "fl_lt _ NInf = False"
| "fl_lt (Fin a) (Fin b) = (a < b)"
| "fl_lt _ _ = True"

text \<open>
  Arithmetic: \<open>inf - inf\<close>, \<open>0 * inf\<close>, \<open>0 / 0\<close> and \<open>inf / inf\<close> are \<^verbatim>\<open>NaN\<close>, and \<^verbatim>\<open>NaN\<close>
  propagates. Division is that of NumPy scalars, where dividing by zero gives an
  infinity rather than an exception.
\<close>

fun fl_neg :: "fl \<Rightarrow> fl" where
  "fl_neg NaN = NaN"
| "fl_neg NInf = PInf"
| "fl_neg PInf = NInf"
| "fl_neg (Fin a) = Fin (- a)"

fun fl_add :: "fl \<Rightarrow> fl \<Rightarrow> fl" where
  "fl_add NaN _ = NaN"
| "fl_add _ NaN = NaN"
| "fl_add PInf NInf = NaN"
| "fl_add NInf PInf = NaN"
| "fl_add PInf _ = PInf"
| "fl_add _ PInf = PInf"
| "fl_add NInf _ = NInf"
| "fl_add _ NInf = NInf"
| "fl_add (Fin a) (Fin b) = rnd64 (a + b)"

definition fl_sub :: "fl \<Rightarrow> fl \<Rightarrow> fl" where
  "fl_sub x y = fl_add x (fl_neg y)"

definition fl_sign_inf :: "bool \<Rightarrow> fl" where
  "fl_sign_inf positive = (if positive then PInf else NInf)"

fun fl_mul :: "fl \<Rightarrow> fl \<Rightarrow> fl" where
  "fl_mul NaN _ = NaN"
| "fl_mul _ NaN = NaN"
| "fl_mul (Fin a) (Fin b) = rnd64 (a * b)"
| "fl_mul (Fin a) PInf = (if a = 0 then NaN else fl_sign_inf (0 < a))"
| "fl_mul (Fin a) NInf = (if a = 0 then NaN else fl_sign_inf (a < 0))"
| "fl_mul PInf (Fin b) = (if b = 0 then NaN else fl_sign_inf (0 < b))"
| "fl_mul NInf (Fin b) = (if b = 0 then NaN else fl_sign_inf (b < 0))"
| "fl_mul PInf PInf = PInf"
| "fl_mul NInf NInf = PInf"
| "fl_mul PInf NInf = NInf"
| "fl_mul NInf PInf = NInf"

fun fl_div :: "fl \<Rightarrow> fl \<Rightarrow> fl" where
  "fl_div NaN _ = NaN"
| "fl_div _ NaN = NaN"
| "fl_div (Fin a) (Fin b) =
     (if b = 0 then (if a = 0 then NaN else fl_sign_inf (0 < a)) else rnd64 (a / b))"
| "fl_div (Fin a) _ = Fin 0"
| "fl_div PInf (Fin b) = fl_sign_inf (0 \<le> b)"
| "fl_div NInf (Fin b) = fl_sign_inf (b < 0)"
| "fl_div _ _ = NaN"

fun fl_sqrt :: "fl \<Rightarrow> fl" where
  "fl_sqrt (Fin a) = (if a < 0 then NaN else rnd64 (sqrt a))"
| "fl_sqrt PInf = PInf"
| "fl_sqrt _ = NaN"

text \<open>
  \<^verbatim>\<open>round(x, 2)\<close>: the decimal with two places nearest to the exact value of \<open>x\<close>, a tie
  going to the even last digit, converted back to the nearest double. \<^verbatim>\<open>NaN\<close> and the
  infinities are returned unchanged.
\<close>

definition py_round2 :: "fl \<Rightarrow> fl" where
  "py_round2 x =
     (case x of Fin v \<Rightarrow> rnd64 (of_int (round_half_even (v * 100)) / 100) | _ \<Rightarrow> x)"

text \<open>
  A real number that is a double: rounding leaves it as it is.
\<close>

definition is_double :: "real \<Rightarrow> bool" where
  "is_double x \<longleftrightarrow> rnd64 x = Fin x"

subsection \<open>Rounding is monotone and exact on doubles\<close>

lemma round_half_even_bounds:
  "\<bar>of_int (round_half_even y) - y\<bar> \<le> 1 / 2"
  unfolding round_half_even_def Let_def by (auto simp: abs_if) linarith+

lemma round_half_even_of_int [simp]: "round_half_even (of_int n) = n"
  by (simp add: round_half_even_def)

lemma round_half_even_cases:
  "round_half_even y = \<lfloor>y\<rfloor> \<or> round_half_even y = \<lfloor>y\<rfloor> + 1"
  by (simp add: round_half_even_def Let_def)

lemma round_half_even_mono:
  assumes "x \<le> y"
  shows "round_half_even x \<le> round_half_even y"
proof (cases "\<lfloor>x\<rfloor> = \<lfloor>y\<rfloor>")
  case True
  define f where "f = \<lfloor>x\<rfloor>"
  have "x - of_int f \<le> y - of_int f" using assms by simp
  then show ?thesis
    unfolding round_half_even_def Let_def True [symmetric] f_def [symmetric]
    by auto
next
  case False
  then have "\<lfloor>x\<rfloor> < \<lfloor>y\<rfloor>" using floor_mono [OF assms] by simp
  then have "\<lfloor>x\<rfloor> + 1 \<le> \<lfloor>y\<rfloor>" by simp
  moreover have "round_half_even x \<le> \<lfloor>x\<rfloor> + 1"
    using round_half_even_cases [of x] by auto
  moreover have "\<lfloor>y\<rfloor> \<le> round_half_even y"
    using round_half_even_cases [of y] by auto
  ultimately show ?thesis by linarith
qed

lemma round_half_even_minus: "round_half_even (- y) = - round_half_even y"
proof (cases "y = of_int \<lfloor>y\<rfloor>")
  case True
  then obtain n where "y = of_int n" ..
  then show ?thesis by (simp flip: of_int_minus)
next
  case False
  then have lt: "of_int \<lfloor>y\<rfloor> < y" using of_int_floor_le [of y] by linarith
  have up: "y < of_int \<lfloor>y\<rfloor> + 1" by linarith
  have fl: "\<lfloor>- y\<rfloor> = - \<lfloor>y\<rfloor> - 1"
  proof (rule floor_unique)
    have e: "(of_int (- \<lfloor>y\<rfloor> - 1) :: real) = - of_int \<lfloor>y\<rfloor> - 1" by simp
    show "of_int (- \<lfloor>y\<rfloor> - 1) \<le> - y" unfolding e using up by linarith
    show "- y < of_int (- \<lfloor>y\<rfloor> - 1) + 1" unfolding e using lt by linarith
  qed
  have ev: "even (- \<lfloor>y\<rfloor> - 1) \<longleftrightarrow> odd \<lfloor>y\<rfloor>" by simp
  show ?thesis
    unfolding round_half_even_def Let_def fl ev
    by (auto simp: algebra_simps)
qed


lemma ulp_pos: "0 < ulp x"
  by (simp add: ulp_def)

lemma binade_minus [simp]: "binade (- x) = binade x"
  by (simp add: binade_def)

lemma ulp_minus [simp]: "ulp (- x) = ulp x"
  by (simp add: ulp_def)

lemma round_to_double_minus: "round_to_double (- x) = - round_to_double x"
  by (simp add: round_to_double_def round_half_even_minus)

lemma binade_ge: "- 1022 \<le> binade x"
  by (simp add: binade_def)

lemma abs_less_next_binade: "\<bar>x\<bar> < 2 powr of_int (binade x + 1)"
proof (cases "x = 0")
  case True
  then show ?thesis by simp
next
  case False
  define k where "k = \<lfloor>log 2 \<bar>x\<bar>\<rfloor>"
  have "0 < \<bar>x\<bar>" using False by simp
  from floor_log_eq_powr_iff [OF this, of 2 k]
  have "\<bar>x\<bar> < 2 powr (of_int k + 1)" by (simp add: k_def)
  also have "\<dots> \<le> 2 powr of_int (binade x + 1)"
    using False by (intro powr_mono) (simp_all add: binade_def k_def)
  finally show ?thesis .
qed

lemma normal_binade_le:
  assumes "- 1022 < binade x"
  shows "2 powr of_int (binade x) \<le> \<bar>x\<bar>"
proof -
  from assms have nz: "x \<noteq> 0" and b: "binade x = \<lfloor>log 2 \<bar>x\<bar>\<rfloor>"
    by (auto simp: binade_def split: if_splits)
  have "0 < \<bar>x\<bar>" using nz by simp
  from floor_log_eq_powr_iff [OF this, of 2 "binade x"] b show ?thesis by simp
qed

lemma binade_mono:
  assumes "\<bar>x\<bar> \<le> \<bar>y\<bar>"
  shows "binade x \<le> binade y"
proof (cases "x = 0")
  case True
  then show ?thesis using binade_ge [of y] by (simp add: binade_def)
next
  case False
  with assms have y: "y \<noteq> 0" by auto
  have "log 2 \<bar>x\<bar> \<le> log 2 \<bar>y\<bar>" using False assms by (intro log_mono) simp_all
  then have "\<lfloor>log 2 \<bar>x\<bar>\<rfloor> \<le> \<lfloor>log 2 \<bar>y\<bar>\<rfloor>" by (rule floor_mono)
  then show ?thesis using False y by (simp add: binade_def)
qed

lemma ulp_scale: "2 powr of_int (binade x + 1) = 2 ^ 53 * ulp x"
proof -
  have "(of_int (binade x + 1) :: real) = 53 + of_int (binade x - 52)" by simp
  then have "(2::real) powr of_int (binade x + 1) = 2 powr (53 + of_int (binade x - 52))"
    by (simp only:)
  also have "\<dots> = 2 powr 53 * 2 powr of_int (binade x - 52)" by (rule powr_add)
  also have "(2::real) powr 53 = 2 ^ 53" by (rule powr_numeral) simp
  finally show ?thesis by (simp only: ulp_def)
qed

lemma ulp_scale': "2 powr of_int (binade x) = 2 ^ 52 * ulp x"
proof -
  have "(of_int (binade x) :: real) = 52 + of_int (binade x - 52)" by simp
  then have "(2::real) powr of_int (binade x) = 2 powr (52 + of_int (binade x - 52))"
    by (simp only:)
  also have "\<dots> = 2 powr 52 * 2 powr of_int (binade x - 52)" by (rule powr_add)
  also have "(2::real) powr 52 = 2 ^ 52" by (rule powr_numeral) simp
  finally show ?thesis by (simp only: ulp_def)
qed

lemma round_to_double_nonneg:
  assumes "0 \<le> x"
  shows "0 \<le> round_to_double x"
proof -
  have "0 \<le> x / ulp x" using assms ulp_pos [of x] by simp
  from round_half_even_mono [OF this] have "0 \<le> round_half_even (x / ulp x)"
    using round_half_even_of_int [of 0] by simp
  then show ?thesis using ulp_pos [of x] by (simp add: round_to_double_def)
qed

lemma round_to_double_le_next:
  assumes "0 \<le> x"
  shows "round_to_double x \<le> 2 powr of_int (binade x + 1)"
proof -
  have "\<bar>x\<bar> < 2 ^ 53 * ulp x"
    using abs_less_next_binade [of x] by (simp only: ulp_scale)
  then have "x \<le> 2 ^ 53 * ulp x" using assms by linarith
  then have "x / ulp x \<le> 2 ^ 53"
    using ulp_pos [of x] by (simp only: pos_divide_le_eq)
  then have "x / ulp x \<le> of_int (2 ^ 53)" by simp
  from round_half_even_mono [OF this]
  have "round_half_even (x / ulp x) \<le> 2 ^ 53"
    by (simp only: round_half_even_of_int)
  then have "(of_int (round_half_even (x / ulp x)) :: real) \<le> of_int (2 ^ 53)"
    by (simp only: of_int_le_iff)
  then have "of_int (round_half_even (x / ulp x)) * ulp x \<le> of_int (2 ^ 53) * ulp x"
    using ulp_pos [of x] by (intro mult_right_mono) simp_all
  also have "(of_int (2 ^ 53) :: real) = 2 ^ 53" by simp
  finally show ?thesis by (simp only: round_to_double_def ulp_scale)
qed

lemma round_to_double_ge_binade:
  assumes "0 \<le> x" "- 1022 < binade x"
  shows "2 powr of_int (binade x) \<le> round_to_double x"
proof -
  have "2 ^ 52 * ulp x \<le> \<bar>x\<bar>"
    using normal_binade_le [OF assms(2)] by (simp only: ulp_scale')
  then have "2 ^ 52 * ulp x \<le> x" using assms(1) by linarith
  then have "2 ^ 52 \<le> x / ulp x"
    using ulp_pos [of x] by (simp only: pos_le_divide_eq)
  then have "of_int (2 ^ 52) \<le> x / ulp x" by simp
  from round_half_even_mono [OF this]
  have "2 ^ 52 \<le> round_half_even (x / ulp x)"
    by (simp only: round_half_even_of_int)
  then have "(of_int (2 ^ 52) :: real) \<le> of_int (round_half_even (x / ulp x))"
    by (simp only: of_int_le_iff)
  then have "of_int (2 ^ 52) * ulp x \<le> of_int (round_half_even (x / ulp x)) * ulp x"
    using ulp_pos [of x] by (intro mult_right_mono) simp_all
  moreover have "(of_int (2 ^ 52) :: real) = 2 ^ 52" by simp
  ultimately show ?thesis by (simp only: round_to_double_def ulp_scale')
qed

lemma round_to_double_mono_nonneg:
  assumes "0 \<le> x" "x \<le> y"
  shows "round_to_double x \<le> round_to_double y"
proof -
  have y: "0 \<le> y" using assms by simp
  have "binade x \<le> binade y" using assms by (intro binade_mono) simp
  then consider "binade x = binade y" | "binade x < binade y" by linarith
  then show ?thesis
  proof cases
    case 1
    then have u: "ulp x = ulp y" by (simp add: ulp_def)
    have "x / ulp y \<le> y / ulp y"
      using assms(2) ulp_pos [of y] by (simp add: divide_right_mono)
    from round_half_even_mono [OF this]
    have "(of_int (round_half_even (x / ulp y)) :: real) \<le> of_int (round_half_even (y / ulp y))"
      by (simp only: of_int_le_iff)
    then show ?thesis
      unfolding round_to_double_def u using ulp_pos [of y] by (intro mult_right_mono) simp_all
  next
    case 2
    then have n: "- 1022 < binade y" using binade_ge [of x] by linarith
    have "round_to_double x \<le> 2 powr of_int (binade x + 1)"
      using assms(1) by (rule round_to_double_le_next)
    also have "\<dots> \<le> 2 powr of_int (binade y)"
      using 2 by (intro powr_mono) simp_all
    also have "\<dots> \<le> round_to_double y"
      using y n by (rule round_to_double_ge_binade)
    finally show ?thesis .
  qed
qed

lemma round_to_double_mono:
  assumes "x \<le> y"
  shows "round_to_double x \<le> round_to_double y"
proof -
  consider "0 \<le> x" | "x < 0" "0 \<le> y" | "y < 0" using assms by linarith
  then show ?thesis
  proof cases
    case 1
    then show ?thesis using assms by (rule round_to_double_mono_nonneg)
  next
    case 2
    have "0 \<le> round_to_double (- x)" using 2 by (intro round_to_double_nonneg) simp
    then have "round_to_double x \<le> 0" by (simp add: round_to_double_minus)
    also have "0 \<le> round_to_double y" using 2 by (intro round_to_double_nonneg)
    finally show ?thesis .
  next
    case 3
    have "round_to_double (- y) \<le> round_to_double (- x)"
      using 3 assms by (intro round_to_double_mono_nonneg) simp_all
    then show ?thesis by (simp add: round_to_double_minus)
  qed
qed

lemma round_to_double_0 [simp]: "round_to_double 0 = 0"
  by (simp add: round_to_double_def round_half_even_def)

lemma rnd64_not_NaN [simp]: "rnd64 x \<noteq> NaN"
  by (simp add: rnd64_def Let_def)

lemma rnd64_mono:
  assumes "x \<le> y"
  shows "fl_le (rnd64 x) (rnd64 y)"
  using round_to_double_mono [OF assms]
  by (auto simp: rnd64_def Let_def)

lemma rnd64_0 [simp]: "rnd64 0 = Fin 0"
  by (simp add: rnd64_def)

lemma rnd64_eval:
  assumes "2 ^ 52 \<le> \<bar>x\<bar> * 2 ^ k" "\<bar>x\<bar> * 2 ^ k < 2 ^ 53" "k \<le> 1074"
  shows "rnd64 x = Fin (of_int (round_half_even (x * 2 ^ k)) / 2 ^ k)"
proof -
  define e :: int where "e = 52 - int k"
  have p: "(2::real) powr of_int (- int k) = 1 / 2 ^ k"
    by (simp add: powr_minus powr_realpow divide_inverse)
  have pe: "(2::real) powr of_int e = 2 ^ 52 / 2 ^ k"
  proof -
    have "(of_int e :: real) = 52 + of_int (- int k)" by (simp add: e_def)
    then have "(2::real) powr of_int e = 2 powr (52 + of_int (- int k))" by (simp only:)
    also have "\<dots> = 2 powr 52 * 2 powr of_int (- int k)" by (rule powr_add)
    also have "(2::real) powr 52 = 2 ^ 52" by (rule powr_numeral) simp
    finally show ?thesis by (simp only: p) simp
  qed
  have pe1: "(2::real) powr (of_int e + 1) = 2 ^ 53 / 2 ^ k"
  proof -
    have "(2::real) powr (of_int e + 1) = 2 powr of_int e * 2 powr 1" by (rule powr_add)
    then show ?thesis by (simp only: pe) simp
  qed
  have pos: "(0::real) < 2 ^ k" by simp
  have lo: "2 powr of_int e \<le> \<bar>x\<bar>"
    unfolding pe using assms(1) pos by (simp only: pos_divide_le_eq)
  have hi: "\<bar>x\<bar> < 2 powr (of_int e + 1)"
    unfolding pe1 using assms(2) pos by (simp only: pos_less_divide_eq)
  have "0 < 2 powr real_of_int e" by simp
  with lo have nz: "0 < \<bar>x\<bar>" by linarith
  from floor_log_eq_powr_iff [OF nz, of 2 e] lo hi have "\<lfloor>log 2 \<bar>x\<bar>\<rfloor> = e" by simp
  moreover have "- 1022 \<le> e" using assms(3) by (simp add: e_def)
  ultimately have b: "binade x = e" using nz by (simp add: binade_def)
  have u: "ulp x = 1 / 2 ^ k"
    unfolding ulp_def b using p by (simp add: e_def)
  have r: "round_to_double x = of_int (round_half_even (x * 2 ^ k)) / 2 ^ k"
    by (simp add: round_to_double_def u)
  have "\<bar>round_to_double x\<bar> \<le> 2 ^ 53"
  proof -
    have "\<bar>x * 2 ^ k\<bar> < 2 ^ 53" using assms(2) by (simp add: abs_mult)
    then have "- (2 ^ 53) \<le> x * 2 ^ k" "x * 2 ^ k \<le> 2 ^ 53" by linarith+
    then have "of_int (- (2 ^ 53)) \<le> x * 2 ^ k" "x * 2 ^ k \<le> of_int (2 ^ 53)" by simp_all
    from round_half_even_mono [OF this(1)] round_half_even_mono [OF this(2)]
    have "- (2 ^ 53) \<le> round_half_even (x * 2 ^ k)" "round_half_even (x * 2 ^ k) \<le> 2 ^ 53"
      by (simp_all only: round_half_even_of_int)
    then have "\<bar>round_half_even (x * 2 ^ k)\<bar> \<le> 2 ^ 53" by linarith
    then have "\<bar>(of_int (round_half_even (x * 2 ^ k)) :: real)\<bar> \<le> 2 ^ 53"
      by (metis of_int_abs of_int_le_iff of_int_numeral of_int_power)
    moreover have "(1::real) \<le> 2 ^ k" by simp
    ultimately have "\<bar>(of_int (round_half_even (x * 2 ^ k)) :: real)\<bar> \<le> 2 ^ 53 * 2 ^ k"
      by (metis mult.right_neutral mult_left_mono order_trans zero_le_numeral zero_le_power)
    then show ?thesis unfolding r by (simp add: pos_divide_le_eq abs_divide)
  qed
  moreover have "(2::real) ^ 53 < 2 ^ 1024" by simp
  ultimately have "\<not> 2 ^ 1024 \<le> round_to_double x" "\<not> round_to_double x \<le> - (2 ^ 1024)"
    by linarith+
  then show ?thesis by (simp add: rnd64_def Let_def r)
qed

lemma rnd64_minus: "rnd64 (- x) = fl_neg (rnd64 x)"
  by (auto simp: rnd64_def Let_def round_to_double_minus)

lemma rnd64_eval_big:
  assumes "2 ^ 52 \<le> \<bar>x\<bar> / 2 ^ k" "\<bar>x\<bar> / 2 ^ k < 2 ^ 53" "k \<le> 970"
  shows "rnd64 x = Fin (of_int (round_half_even (x / 2 ^ k)) * 2 ^ k)"
proof -
  define e :: int where "e = 52 + int k"
  have p: "(2::real) powr of_int (int k) = 2 ^ k"
    by (simp add: powr_realpow)
  have pe: "(2::real) powr of_int e = 2 ^ 52 * 2 ^ k"
  proof -
    have "(of_int e :: real) = 52 + of_int (int k)" by (simp add: e_def)
    then have "(2::real) powr of_int e = 2 powr (52 + of_int (int k))" by (simp only:)
    also have "\<dots> = 2 powr 52 * 2 powr of_int (int k)" by (rule powr_add)
    also have "(2::real) powr 52 = 2 ^ 52" by (rule powr_numeral) simp
    finally show ?thesis by (simp only: p)
  qed
  have pe1: "(2::real) powr (of_int e + 1) = 2 ^ 53 * 2 ^ k"
  proof -
    have "(2::real) powr (of_int e + 1) = 2 powr of_int e * 2 powr 1" by (rule powr_add)
    then show ?thesis by (simp only: pe) simp
  qed
  have pos: "(0::real) < 2 ^ k" by simp
  have lo: "2 powr of_int e \<le> \<bar>x\<bar>"
    unfolding pe using assms(1) pos by (simp only: pos_le_divide_eq)
  have hi: "\<bar>x\<bar> < 2 powr (of_int e + 1)"
    unfolding pe1 using assms(2) pos by (simp only: pos_divide_less_eq)
  have "0 < 2 powr real_of_int e" by simp
  with lo have nz: "0 < \<bar>x\<bar>" by linarith
  from floor_log_eq_powr_iff [OF nz, of 2 e] lo hi have "\<lfloor>log 2 \<bar>x\<bar>\<rfloor> = e" by simp
  moreover have "- 1022 \<le> e" by (simp add: e_def)
  ultimately have b: "binade x = e" using nz by (simp add: binade_def)
  have u: "ulp x = 2 ^ k"
    unfolding ulp_def b using p by (simp add: e_def)
  have r: "round_to_double x = of_int (round_half_even (x / 2 ^ k)) * 2 ^ k"
    by (simp add: round_to_double_def u)
  have "\<bar>round_to_double x\<bar> \<le> 2 ^ 53 * 2 ^ k"
  proof -
    have "\<bar>x / 2 ^ k\<bar> < 2 ^ 53" using assms(2) by (simp add: abs_divide)
    then have "- (2 ^ 53) \<le> x / 2 ^ k" "x / 2 ^ k \<le> 2 ^ 53" by linarith+
    then have "of_int (- (2 ^ 53)) \<le> x / 2 ^ k" "x / 2 ^ k \<le> of_int (2 ^ 53)" by simp_all
    from round_half_even_mono [OF this(1)] round_half_even_mono [OF this(2)]
    have "- (2 ^ 53) \<le> round_half_even (x / 2 ^ k)" "round_half_even (x / 2 ^ k) \<le> 2 ^ 53"
      by (simp_all only: round_half_even_of_int)
    then have "\<bar>round_half_even (x / 2 ^ k)\<bar> \<le> 2 ^ 53" by linarith
    then have "\<bar>(of_int (round_half_even (x / 2 ^ k)) :: real)\<bar> \<le> 2 ^ 53"
      by (metis of_int_abs of_int_le_iff of_int_numeral of_int_power)
    then have "\<bar>(of_int (round_half_even (x / 2 ^ k)) :: real)\<bar> * 2 ^ k \<le> 2 ^ 53 * 2 ^ k"
      by (intro mult_right_mono) simp_all
    then show ?thesis unfolding r by (simp add: abs_mult)
  qed
  moreover have "(2::real) ^ 53 * 2 ^ k \<le> 2 ^ 53 * 2 ^ 970"
    using assms(3) by (intro mult_left_mono power_increasing) simp_all
  moreover have "(2::real) ^ 53 * 2 ^ 970 < 2 ^ 1024" by simp
  ultimately have "\<not> 2 ^ 1024 \<le> round_to_double x" "\<not> round_to_double x \<le> - (2 ^ 1024)"
    by linarith+
  then show ?thesis by (simp add: rnd64_def Let_def r)
qed

lemma round_half_even_numeral [simp]: "round_half_even (numeral w) = numeral w"
  using round_half_even_of_int [of "numeral w"] by simp

lemma round_half_even_0 [simp]: "round_half_even 0 = 0"
  using round_half_even_of_int [of 0] by simp

lemma round_half_even_1 [simp]: "round_half_even 1 = 1"
  using round_half_even_of_int [of 1] by simp

lemma rnd64_1: "rnd64 1 = Fin 1"
  by (subst rnd64_eval [where k = 52]) simp_all

lemma rnd64_100: "rnd64 100 = Fin 100"
  by (subst rnd64_eval [where k = 46]) simp_all

lemma rnd64_2_63: "rnd64 (2 ^ 63) = Fin (2 ^ 63)"
  by (subst rnd64_eval_big [where k = 11]) simp_all

lemma rnd64_between:
  assumes "l \<le> x" "x \<le> u" "rnd64 l = Fin l'" "rnd64 u = Fin u'"
  shows "\<exists>y. rnd64 x = Fin y \<and> l' \<le> y \<and> y \<le> u'"
proof -
  from rnd64_mono [OF assms(1)] rnd64_mono [OF assms(2)]
  have "fl_le (Fin l') (rnd64 x)" "fl_le (rnd64 x) (Fin u')"
    by (simp_all only: assms(3,4))
  then show ?thesis by (cases "rnd64 x") simp_all
qed

lemma rnd64_count:
  assumes "n < 2 ^ 63"
  shows "\<exists>y. rnd64 (real n) = Fin y \<and> 0 \<le> y"
proof -
  have "real n \<le> 2 ^ 63" using assms by (metis less_imp_le of_nat_le_iff of_nat_numeral of_nat_power)
  from rnd64_between [OF _ this rnd64_0 rnd64_2_63, of] show ?thesis by auto
qed

lemma rnd64_count_pos:
  assumes "1 \<le> n"
  shows "fl_le (Fin 1) (rnd64 (real n))"
proof -
  have "(1::real) \<le> real n" using assms by simp
  from rnd64_mono [OF this] show ?thesis by (simp only: rnd64_1)
qed

text \<open>A share of at most the whole, times 100, is a finite number between 0 and 100.\<close>

lemma percent_finite:
  assumes "k \<le> n" "1 \<le> n" "n < 2 ^ 63"
  shows "\<exists>x. fl_mul (fl_div (rnd64 (real k)) (rnd64 (real n))) (Fin 100) = Fin x
             \<and> 0 \<le> x \<and> x \<le> 100"
proof -
  from rnd64_count [OF assms(3)] obtain b where b: "rnd64 (real n) = Fin b" by blast
  from rnd64_count_pos [OF assms(2)] have b1: "1 \<le> b" by (simp add: b)
  have "real k \<le> real n" using assms(1) by simp
  from rnd64_between [OF _ this rnd64_0 b, of] obtain a
    where a: "rnd64 (real k) = Fin a" "0 \<le> a" "a \<le> b" by auto
  have "0 \<le> a / b" "a / b \<le> 1" using a b1 by simp_all
  from rnd64_between [OF this rnd64_0 rnd64_1] obtain q
    where q: "rnd64 (a / b) = Fin q" "0 \<le> q" "q \<le> 1" by blast
  have "0 \<le> q * 100" "q * 100 \<le> 100" using q by simp_all
  from rnd64_between [OF this rnd64_0 rnd64_100] obtain x
    where x: "rnd64 (q * 100) = Fin x" "0 \<le> x" "x \<le> 100" by blast
  have "b \<noteq> 0" using b1 by simp
  then have "fl_mul (fl_div (rnd64 (real k)) (rnd64 (real n))) (Fin 100) = Fin x"
    by (simp add: a b q x)
  with x show ?thesis by blast
qed

lemma py_round2_percent:
  assumes "0 \<le> x" "x \<le> 100"
  shows "\<exists>p. py_round2 (Fin x) = Fin p \<and> 0 \<le> p \<and> p \<le> 100"
proof -
  define j where "j = round_half_even (x * 100)"
  have "of_int 0 \<le> x * 100" "x * 100 \<le> of_int 10000" using assms by simp_all
  from round_half_even_mono [OF this(1)] round_half_even_mono [OF this(2)]
  have "0 \<le> j" "j \<le> 10000" by (simp_all only: round_half_even_of_int j_def)
  then have "(0::real) \<le> of_int j" "(of_int j :: real) \<le> 10000" by simp_all
  then have "(0::real) \<le> of_int j / 100" "(of_int j :: real) / 100 \<le> 100" by simp_all
  from rnd64_between [OF this rnd64_0 rnd64_100]
  show ?thesis by (simp add: py_round2_def j_def)
qed

text \<open>
  Adding a non-negative width to a double, or taking it away, moves it in that
  direction or leaves it.
\<close>

lemma fl_le_sub_nonneg:
  assumes "is_double a" "fl_le (Fin 0) w"
  shows "fl_le (fl_sub (Fin a) w) (Fin a)"
proof (cases w)
  case (Fin r)
  with assms(2) have "a - r \<le> a" by simp
  from rnd64_mono [OF this] assms(1) show ?thesis
    by (simp add: Fin fl_sub_def is_double_def)
qed (use assms(2) in \<open>simp_all add: fl_sub_def\<close>)

lemma fl_le_add_nonneg:
  assumes "is_double b" "fl_le (Fin 0) w"
  shows "fl_le (Fin b) (fl_add (Fin b) w)"
proof (cases w)
  case (Fin r)
  with assms(2) have "b \<le> b + r" by simp
  from rnd64_mono [OF this] assms(1) show ?thesis
    by (simp add: Fin is_double_def)
qed (use assms(2) in simp_all)

lemma fence_width_nonneg:
  assumes "a \<le> b"
  shows "fl_le (Fin 0) (fl_mul (Fin (3 / 2)) (fl_sub (Fin b) (Fin a)))"
proof -
  have "0 \<le> b - a" using assms by simp
  from rnd64_mono [OF this] have i: "fl_le (Fin 0) (rnd64 (b - a))" by simp
  show ?thesis
  proof (cases "rnd64 (b - a)")
    case (Fin r)
    with i have "0 \<le> 3 / 2 * r" by simp
    from rnd64_mono [OF this] show ?thesis by (simp add: fl_sub_def Fin)
  qed (use i in \<open>simp_all add: fl_sub_def fl_sign_inf_def\<close>)
qed

lemma rnd64_neg_2_63: "rnd64 (- (2 ^ 63)) = Fin (- (2 ^ 63))"
  by (simp only: rnd64_minus rnd64_2_63 fl_neg.simps)

lemma is_double_integral:
  assumes "is_double v" "2 ^ 52 \<le> \<bar>v\<bar>"
  shows "\<exists>m. v = of_int m"
proof -
  from assms(1) have "round_to_double v = v"
    by (auto simp: is_double_def rnd64_def Let_def split: if_splits)
  then have v: "v = of_int (round_half_even (v / ulp v)) * ulp v"
    by (simp add: round_to_double_def)
  have "(0::real) < 2 ^ 52" by simp
  with assms(2) have nz: "0 < \<bar>v\<bar>" by linarith
  have "(2::real) powr of_int 52 \<le> \<bar>v\<bar>"
  proof -
    have "(2::real) powr 52 = 2 ^ 52" by (rule powr_numeral) simp
    then show ?thesis using assms(2) by simp
  qed
  with floor_log_eq_powr_iff [OF nz, of 2 "\<lfloor>log 2 \<bar>v\<bar>\<rfloor>"]
  have "52 \<le> \<lfloor>log 2 \<bar>v\<bar>\<rfloor>"
    by (metis le_floor_iff le_log_iff nz of_int_numeral one_less_numeral_iff semiring_norm(76))
  then have b: "52 \<le> binade v" using nz by (simp add: binade_def)
  define e where "e = nat (binade v - 52)"
  have "ulp v = 2 powr of_int (int e)" using b by (simp add: ulp_def e_def)
  also have "\<dots> = 2 ^ e" by (simp add: powr_realpow)
  finally have u: "ulp v = of_int (2 ^ e)" by simp
  have "v = of_int (round_half_even (v / ulp v) * 2 ^ e)"
    by (subst v) (simp only: u of_int_mult)
  then show ?thesis ..
qed

text \<open>\<^verbatim>\<open>round(x, 2)\<close> of a finite double is a finite double.\<close>

lemma py_round2_finite:
  assumes "is_double v"
  shows "\<exists>m. py_round2 (Fin v) = Fin m"
proof (cases "2 ^ 52 \<le> \<bar>v\<bar>")
  case True
  from is_double_integral [OF assms True] obtain m where m: "v = of_int m" ..
  have "v * 100 = of_int (m * 100)" by (simp add: m)
  then have "round_half_even (v * 100) = m * 100" by (simp only: round_half_even_of_int)
  then have "py_round2 (Fin v) = rnd64 v" by (simp add: py_round2_def m)
  with assms show ?thesis by (simp add: is_double_def)
next
  case False
  define y where "y = (of_int (round_half_even (v * 100)) :: real) / 100"
  have "\<bar>of_int (round_half_even (v * 100)) - v * 100\<bar> \<le> 1 / 2"
    by (rule round_half_even_bounds)
  then have "\<bar>y - v\<bar> \<le> 1 / 200" by (simp add: y_def abs_if split: if_splits)
  moreover have "\<bar>v\<bar> < 2 ^ 52" using False by simp
  moreover have "(2::real) ^ 52 + 1 / 200 \<le> 2 ^ 63" by simp
  ultimately have "- (2 ^ 63) \<le> y" "y \<le> 2 ^ 63" by linarith+
  from rnd64_between [OF this rnd64_neg_2_63 rnd64_2_63]
  show ?thesis by (auto simp: py_round2_def y_def)
qed

lemma fl_lt_NaN_right [simp]: "\<not> fl_lt x NaN"
  by (cases x) simp_all

lemma fl_le_NaN_right [simp]: "\<not> fl_le x NaN"
  by (cases x) simp_all

lemma fl_lt_irrefl [simp]: "\<not> fl_lt x x"
  by (cases x) simp_all

lemma py_round2_special [simp]:
  "py_round2 NaN = NaN" "py_round2 PInf = PInf" "py_round2 NInf = NInf"
  "py_round2 (Fin 0) = Fin 0"
  by (simp_all add: py_round2_def)

lemma rnd64_small:
  "rnd64 2 = Fin 2" "rnd64 3 = Fin 3" "rnd64 4 = Fin 4" "rnd64 5 = Fin 5"
  "rnd64 96 = Fin 96" "rnd64 (1 / 4) = Fin (1 / 4)"
  by (subst rnd64_eval [where k = 51], simp_all)
     (subst rnd64_eval [where k = 51], simp_all,
      subst rnd64_eval [where k = 50], simp_all,
      subst rnd64_eval [where k = 50], simp_all,
      subst rnd64_eval [where k = 46], simp_all,
      subst rnd64_eval [where k = 54], simp_all)


section \<open>The numeric summary with IQR fences\<close>

text \<open>
  A numeric column is a list of doubles, \<^verbatim>\<open>NaN\<close> for a missing value, as
  \<^verbatim>\<open>df[c]\<close> holds them. The statistics that the script asks of pandas
  (\<^verbatim>\<open>quantile\<close>, \<^verbatim>\<open>median\<close>, \<^verbatim>\<open>mean\<close>, \<^verbatim>\<open>std\<close>) are computed inside the library, in
  floating point whose details differ between versions; they are a parameter of the
  model, and what is proved of the summary holds for every such library.
\<close>

record pandas =
  pd_quantile :: "fl list \<Rightarrow> real \<Rightarrow> fl"
  pd_median :: "fl list \<Rightarrow> fl"
  pd_mean :: "fl list \<Rightarrow> fl"
  pd_std :: "fl list \<Rightarrow> fl"

record fence_summary =
  variable :: string
  count :: nat
  mean :: fl
  std :: fl
  min_val :: fl
  q1 :: fl
  median :: fl
  q3 :: fl
  max_val :: fl
  iqr :: fl
  lower_fence :: fl
  upper_fence :: fl
  outlier_pct :: fl

text \<open>
  \<^verbatim>\<open>s = df[c].dropna().astype(float)\<close>: the values that are not \<^verbatim>\<open>NaN\<close>.
\<close>

definition dropna_float :: "fl list \<Rightarrow> fl list" where
  "dropna_float col = filter (\<lambda>x. x \<noteq> NaN) col"

text \<open>
  \<^verbatim>\<open>s.min()\<close> and \<^verbatim>\<open>s.max()\<close>, which involve no rounding.
\<close>

definition series_min :: "fl list \<Rightarrow> fl" where
  "series_min s =
     (case s of [] \<Rightarrow> NaN | x # xs \<Rightarrow> fold (\<lambda>y m. if fl_lt y m then y else m) xs x)"

definition series_max :: "fl list \<Rightarrow> fl" where
  "series_max s =
     (case s of [] \<Rightarrow> NaN | x # xs \<Rightarrow> fold (\<lambda>y m. if fl_lt m y then y else m) xs x)"

text \<open>
  \<^verbatim>\<open>(df[c] < lower) | (df[c] > upper)\<close>, over the whole column: a comparison with a
  missing value, or with a fence that is \<^verbatim>\<open>NaN\<close>, is false.
\<close>

definition outlier_mask :: "fl list \<Rightarrow> fl \<Rightarrow> fl \<Rightarrow> bool list" where
  "outlier_mask col lower upper = map (\<lambda>x. fl_lt x lower \<or> fl_lt upper x) col"

text \<open>
  One pass of the loop over the numeric columns: \<open>c\<close> is the column's name, \<open>col\<close>
  the column \<^verbatim>\<open>df[c]\<close>, whose length is \<^verbatim>\<open>len(df)\<close>. The count of outliers and the
  length are integers, converted to doubles by the division.
\<close>

definition numeric_summary :: "pandas \<Rightarrow> string \<Rightarrow> fl list \<Rightarrow> fence_summary" where
  "numeric_summary pd c col =
     (let s = dropna_float col
      in if length s = 0
         then \<lparr>variable = c, count = 0, mean = NaN, std = NaN, min_val = NaN,
               q1 = NaN, median = NaN, q3 = NaN, max_val = NaN,
               iqr = NaN, lower_fence = NaN, upper_fence = NaN, outlier_pct = NaN\<rparr>
         else
           let qa = pd_quantile pd s (1 / 4);
               qb = pd_quantile pd s (3 / 4);
               iq = fl_sub qb qa;
               lower = fl_sub qa (fl_mul (Fin (3 / 2)) iq);
               upper = fl_add qb (fl_mul (Fin (3 / 2)) iq);
               mask = outlier_mask col lower upper;
               pct = fl_mul (fl_div (rnd64 (real (length (filter id mask))))
                                    (rnd64 (real (length col))))
                            (Fin 100)
           in \<lparr>variable = c,
               count = length s,
               mean = py_round2 (pd_mean pd s),
               std = py_round2 (pd_std pd s),
               min_val = series_min s,
               q1 = qa,
               median = pd_median pd s,
               q3 = qb,
               max_val = series_max s,
               iqr = iq,
               lower_fence = lower,
               upper_fence = upper,
               outlier_pct = py_round2 pct\<rparr>)"

subsection \<open>A reference library\<close>

text \<open>
  One instance of the library statistics, used to evaluate the summary at concrete
  columns: the values sorted, the quantile interpolated linearly between the two
  neighbours of position \<open>(n - 1) * q\<close> the way NumPy does it, the median the middle
  value or the mean of the two middle values, the mean the running sum divided by the
  number of values, and the sample standard deviation, \<^verbatim>\<open>NaN\<close> for fewer than two
  values.
\<close>

fun fl_insort :: "fl \<Rightarrow> fl list \<Rightarrow> fl list" where
  "fl_insort x [] = [x]"
| "fl_insort x (y # ys) = (if fl_le x y then x # y # ys else y # fl_insort x ys)"

definition fl_sort :: "fl list \<Rightarrow> fl list" where
  "fl_sort s = foldr fl_insort s []"

definition lerp :: "fl \<Rightarrow> fl \<Rightarrow> real \<Rightarrow> fl" where
  "lerp a b t =
     (let d = fl_sub b a
      in if t < 1 / 2 then fl_add a (fl_mul d (rnd64 t))
         else fl_sub b (fl_mul d (rnd64 (1 - t))))"

definition ref_quantile :: "fl list \<Rightarrow> real \<Rightarrow> fl" where
  "ref_quantile s q =
     (let xs = fl_sort s;
          h = real (length xs - 1) * q;
          i = nat \<lfloor>h\<rfloor>;
          j = min (i + 1) (length xs - 1)
      in if xs = [] then NaN else lerp (xs ! i) (xs ! j) (h - real i))"

definition ref_median :: "fl list \<Rightarrow> fl" where
  "ref_median s =
     (let xs = fl_sort s; n = length xs
      in if n = 0 then NaN
         else if odd n then xs ! (n div 2)
         else fl_div (fl_add (xs ! (n div 2 - 1)) (xs ! (n div 2))) (Fin 2))"

definition ref_mean :: "fl list \<Rightarrow> fl" where
  "ref_mean s =
     (if s = [] then NaN else fl_div (foldl fl_add (Fin 0) s) (rnd64 (real (length s))))"

definition ref_std :: "fl list \<Rightarrow> fl" where
  "ref_std s =
     (if length s \<le> 1 then NaN
      else fl_sqrt (fl_div (foldl fl_add (Fin 0)
                              (map (\<lambda>x. fl_mul (fl_sub x (ref_mean s)) (fl_sub x (ref_mean s))) s))
                           (rnd64 (real (length s - 1)))))"

definition pandas_ref :: pandas where
  "pandas_ref = \<lparr>pd_quantile = ref_quantile, pd_median = ref_median,
                  pd_mean = ref_mean, pd_std = ref_std\<rparr>"

text \<open>
  A column of 160 rows, 137 of them 0 and 23 of them 1.
\<close>

definition rows160 :: "fl list" where
  "rows160 = replicate 137 (Fin 0) @ replicate 23 (Fin 1)"

subsection \<open>Properties of the summary\<close>

lemma dropna_float_Nil_iff: "dropna_float xs = [] \<longleftrightarrow> (\<forall>x \<in> set xs. x = NaN)"
  by (auto simp: dropna_float_def filter_empty_conv)

lemma outlier_count:
  "length (filter id (outlier_mask col lower upper))
   = card {i. i < length col \<and> col ! i \<noteq> NaN \<and>
              (fl_lt (col ! i) lower \<or> fl_lt upper (col ! i))}"
proof -
  let ?P = "\<lambda>x. fl_lt x lower \<or> fl_lt upper x"
  have n: "?P x \<Longrightarrow> x \<noteq> NaN" for x by (cases x) auto
  have "length (filter id (outlier_mask col lower upper)) = length (filter ?P col)"
    by (simp add: outlier_mask_def filter_map comp_def)
  also have "\<dots> = card {i. i < length col \<and> ?P (col ! i)}"
    by (rule length_filter_conv_card)
  also have "{i. i < length col \<and> ?P (col ! i)}
      = {i. i < length col \<and> col ! i \<noteq> NaN \<and> ?P (col ! i)}"
    using n by blast
  finally show ?thesis .
qed

lemma outlier_count_le: "length (filter id (outlier_mask col lower upper)) \<le> length col"
proof -
  have "length (filter id (outlier_mask col lower upper)) \<le> length (outlier_mask col lower upper)"
    by (rule length_filter_le)
  then show ?thesis by (simp add: outlier_mask_def)
qed

text \<open>The summary of a column with at least one value, field by field.\<close>

lemma numeric_summary_fields:
  fixes pd :: pandas and col :: "fl list"
  assumes "dropna_float col \<noteq> []"
  defines "s \<equiv> dropna_float col"
  defines "qa \<equiv> pd_quantile pd s (1 / 4)" and "qb \<equiv> pd_quantile pd s (3 / 4)"
  defines "lower \<equiv> fl_sub qa (fl_mul (Fin (3 / 2)) (fl_sub qb qa))"
    and "upper \<equiv> fl_add qb (fl_mul (Fin (3 / 2)) (fl_sub qb qa))"
  shows "count (numeric_summary pd c col) = length s"
    and "mean (numeric_summary pd c col) = py_round2 (pd_mean pd s)"
    and "std (numeric_summary pd c col) = py_round2 (pd_std pd s)"
    and "min_val (numeric_summary pd c col) = series_min s"
    and "q1 (numeric_summary pd c col) = qa"
    and "median (numeric_summary pd c col) = pd_median pd s"
    and "q3 (numeric_summary pd c col) = qb"
    and "max_val (numeric_summary pd c col) = series_max s"
    and "iqr (numeric_summary pd c col) = fl_sub qb qa"
    and "lower_fence (numeric_summary pd c col) = lower"
    and "upper_fence (numeric_summary pd c col) = upper"
    and "outlier_pct (numeric_summary pd c col) =
           py_round2 (fl_mul (fl_div
              (rnd64 (real (length (filter id (outlier_mask col lower upper)))))
              (rnd64 (real (length col)))) (Fin 100))"
  using assms(1)
  by (simp_all add: numeric_summary_def Let_def s_def qa_def qb_def lower_def upper_def)

lemma single_value_rows:
  assumes "dropna_float col = [Fin v]"
  shows "filter id (outlier_mask col (Fin v) (Fin v)) = []"
proof -
  have "\<not> (fl_lt x (Fin v) \<or> fl_lt (Fin v) x)" if "x \<in> set col" for x
  proof (cases "x = NaN")
    case False
    with that have "x \<in> set (dropna_float col)" by (simp add: dropna_float_def)
    with assms show ?thesis by simp
  qed simp
  then show ?thesis by (simp add: outlier_mask_def filter_empty_conv)
qed

lemma ref_example:
  "pd_quantile pandas_ref [Fin 1, Fin 2, Fin 3, Fin 4, Fin 100] (1 / 4) = Fin 2"
  "pd_quantile pandas_ref [Fin 1, Fin 2, Fin 3, Fin 4, Fin 100] (3 / 4) = Fin 4"
  "pd_median pandas_ref [Fin 1, Fin 2, Fin 3, Fin 4, Fin 100] = Fin 3"
  by (simp_all add: pandas_ref_def ref_quantile_def ref_median_def fl_sort_def lerp_def
      fl_sub_def Let_def rnd64_small rnd64_1)

lemma ref_single:
  "pd_quantile pandas_ref [Fin 5] (1 / 4) = Fin 5"
  "pd_quantile pandas_ref [Fin 5] (3 / 4) = Fin 5"
  "pd_median pandas_ref [Fin 5] = Fin 5"
  "pd_mean pandas_ref [Fin 5] = Fin 5"
  "pd_std pandas_ref [Fin 5] = NaN"
  by (simp_all add: pandas_ref_def ref_quantile_def ref_median_def ref_mean_def ref_std_def
      fl_sort_def lerp_def fl_sub_def Let_def rnd64_small rnd64_1)

lemma fl_insort_le: "(\<And>y. y \<in> set ys \<Longrightarrow> fl_le x y) \<Longrightarrow> fl_insort x ys = x # ys"
  by (cases ys) simp_all

lemma fl_sort_sorted: "sorted_wrt fl_le xs \<Longrightarrow> fl_sort xs = xs"
  by (induction xs) (simp_all add: fl_sort_def fl_insort_le)

lemma sorted_wrt_replicate: "R x x \<Longrightarrow> sorted_wrt R (replicate n x)"
  by (induction n) auto

lemma rows160_sorted: "fl_sort rows160 = rows160"
  unfolding rows160_def
  by (rule fl_sort_sorted) (simp add: sorted_wrt_append sorted_wrt_replicate)

lemma rows160_dropna: "dropna_float rows160 = rows160"
  by (simp add: dropna_float_def rows160_def filter_replicate)

lemma rows160_length: "length rows160 = 160"
  by (simp add: rows160_def)

lemma rows160_nth:
  "rows160 ! 39 = Fin 0" "rows160 ! 40 = Fin 0" "rows160 ! 119 = Fin 0" "rows160 ! 120 = Fin 0"
  by (simp_all add: rows160_def nth_append)

lemma rows160_quartiles:
  "ref_quantile rows160 (1 / 4) = Fin 0" "ref_quantile rows160 (3 / 4) = Fin 0"
proof -
  have ne: "rows160 \<noteq> []" using rows160_length by auto
  have i1: "nat \<lfloor>(159::real) / 4\<rfloor> = 39" by simp
  have i3: "nat \<lfloor>(477::real) / 4\<rfloor> = 119" by simp
  show "ref_quantile rows160 (1 / 4) = Fin 0"
    by (simp add: ref_quantile_def Let_def rows160_sorted rows160_length ne i1 rows160_nth
        lerp_def fl_sub_def rnd64_small)
  show "ref_quantile rows160 (3 / 4) = Fin 0"
    by (simp add: ref_quantile_def Let_def rows160_sorted rows160_length ne i3 rows160_nth
        lerp_def fl_sub_def rnd64_small)
qed

lemma rows160_outliers:
  "length (filter id (outlier_mask rows160 (Fin 0) (Fin 0))) = 23"
  by (simp add: outlier_mask_def rows160_def filter_replicate)

lemma percent_23_of_160:
  "py_round2 (fl_mul (fl_div (rnd64 (real 23)) (rnd64 (real 160))) (Fin 100))
   = Fin (8089590830664253 / 2 ^ 49)"
proof -
  have a: "rnd64 (real 23) = Fin 23"
    by (simp, subst rnd64_eval [where k = 48], simp_all)
  have b: "rnd64 (real 160) = Fin 160"
    by (simp, subst rnd64_eval [where k = 45], simp_all)
  have t1: "rnd64 (23 / 160) = Fin (5179139571476070 / 2 ^ 55)"
    by (subst rnd64_eval [where k = 55]) (simp_all add: round_half_even_def)
  have t2: "rnd64 (5179139571476070 / 2 ^ 55 * 100) = Fin (8092405580431359 / 2 ^ 49)"
    by (subst rnd64_eval [where k = 49]) (simp_all add: round_half_even_def)
  have t3: "py_round2 (Fin (8092405580431359 / 2 ^ 49)) = Fin (8089590830664253 / 2 ^ 49)"
    unfolding py_round2_def
    by (simp add: round_half_even_def)
       (subst rnd64_eval [where k = 49], simp_all add: round_half_even_def)
  have "fl_div (rnd64 (real 23)) (rnd64 (real 160)) = Fin (5179139571476070 / 2 ^ 55)"
    unfolding a b using t1 by simp
  then have "fl_mul (fl_div (rnd64 (real 23)) (rnd64 (real 160))) (Fin 100)
      = Fin (8092405580431359 / 2 ^ 49)"
    using t2 by (simp only: fl_mul.simps)
  then show ?thesis by (simp only: t3)
qed

lemma rows160_outlier_pct:
  "outlier_pct (numeric_summary pandas_ref ''x'' rows160) = Fin (8089590830664253 / 2 ^ 49)"
proof -
  have ne: "dropna_float rows160 \<noteq> []" using rows160_length by (auto simp: rows160_dropna)
  have q: "pd_quantile pandas_ref rows160 (1 / 4) = Fin 0"
    "pd_quantile pandas_ref rows160 (3 / 4) = Fin 0"
    by (simp_all add: pandas_ref_def rows160_quartiles)
  have f: "fl_sub (Fin 0) (fl_mul (Fin (3 / 2)) (fl_sub (Fin 0) (Fin 0))) = Fin 0"
    "fl_add (Fin 0) (fl_mul (Fin (3 / 2)) (fl_sub (Fin 0) (Fin 0))) = Fin 0"
    by (simp_all add: fl_sub_def)
  show ?thesis
    unfolding numeric_summary_fields(12) [OF ne] rows160_dropna q f rows160_outliers
      rows160_length
    by (rule percent_23_of_160)
qed

subsection \<open>The claims about the numeric summary\<close>



text \<open>
  C6. For a column whose values are all missing, the summary has count 0 and every
  statistic \<^verbatim>\<open>NaN\<close>; being a value of the function, it is produced without an error.
\<close>

theorem numeric_summary_all_missing:
  assumes "\<forall>x \<in> set col. x = NaN"
  shows "numeric_summary pd c col =
     \<lparr>variable = c, count = 0, mean = NaN, std = NaN, min_val = NaN,
      q1 = NaN, median = NaN, q3 = NaN, max_val = NaN,
      iqr = NaN, lower_fence = NaN, upper_fence = NaN, outlier_pct = NaN\<rparr>"
proof -
  from assms have "dropna_float col = []" by (simp add: dropna_float_Nil_iff)
  then show ?thesis by (simp add: numeric_summary_def)
qed

theorem numeric_summary_all_missing_witness:
  "numeric_summary pandas_ref ''x'' [NaN, NaN, NaN] =
     \<lparr>variable = ''x'', count = 0, mean = NaN, std = NaN, min_val = NaN,
      q1 = NaN, median = NaN, q3 = NaN, max_val = NaN,
      iqr = NaN, lower_fence = NaN, upper_fence = NaN, outlier_pct = NaN\<rparr>"
proof -
  have h: "\<forall>x \<in> set [NaN, NaN, NaN]. x = NaN" by simp
  from numeric_summary_all_missing [OF h, of pandas_ref "''x''"] show ?thesis .
qed







end
